theory Spec2Isabelle
  imports Complex_Main
begin

section \<open>Common data: exceptions, calendar dates, timestamps, dictionaries\<close>

text \<open>
  The Python exceptions that the modelled code can raise. A function that may raise
  returns \<open>exn + 'a\<close>, with \<open>Inl\<close> for the exception.
\<close>

datatype exn = ValueError | TypeError | KeyError | OverflowError | FileNotFoundError | EOFError

text \<open>
  A \<open>datetime.date\<close> is represented by its proleptic Gregorian ordinal (what
  \<open>date.toordinal()\<close> returns: 0001-01-01 is day 1). Comparing two dates is comparing
  their ordinals, and the day before a date has the ordinal one less. \<open>ymd2ord\<close> is
  the standard library's conversion of year, month and day to the ordinal; it is used
  to write concrete dates.
\<close>

type_synonym date = int

definition is_leap :: "int \<Rightarrow> bool" where
  "is_leap year = (year mod 4 = 0 \<and> (if year mod 100 = 0 then year mod 400 = 0 else True))"

definition days_before_year :: "int \<Rightarrow> int" where
  "days_before_year year = (let y = year - 1 in y * 365 + y div 4 - y div 100 + y div 400)"

definition days_before_month :: "int \<Rightarrow> int \<Rightarrow> int" where
  "days_before_month year month =
     [0, 31, 59, 90, 120, 151, 181, 212, 243, 273, 304, 334] ! nat (month - 1)
       + (if month > 2 \<and> is_leap year then 1 else 0)"

definition ymd2ord :: "int \<Rightarrow> int \<Rightarrow> int \<Rightarrow> date" where
  "ymd2ord year month day = days_before_year year + days_before_month year month + day"

definition MINORDINAL :: date where
  "MINORDINAL = 1"

definition MAXORDINAL :: date where
  "MAXORDINAL = 3652059"

text \<open>
  A timezone-aware \<open>datetime\<close>, as \<open>strptime\<close> with the format
  \<open>%Y-%m-%d %H:%M:%S %z\<close> builds it: the local calendar date (as ordinal), the local
  time of day, and the UTC offset in seconds.
\<close>

record datetime =
  ordinal :: date
  hour :: int
  minute :: int
  second :: int
  utcoffset :: rat

text \<open>\<open>dt - timedelta(days=n)\<close>: the same wall-clock time \<open>n\<close> days earlier;
  \<open>OverflowError\<close> when the date leaves the supported range.\<close>

definition datetime_sub_days :: "datetime \<Rightarrow> int \<Rightarrow> exn + datetime" where
  "datetime_sub_days dt n =
     (if MINORDINAL \<le> ordinal dt - n \<and> ordinal dt - n \<le> MAXORDINAL
      then Inr (dt\<lparr>ordinal := ordinal dt - n\<rparr>)
      else Inl OverflowError)"

text \<open>\<open>(e - s).total_seconds()\<close> for two aware datetimes: the difference of the
  local readings, corrected by the two UTC offsets.\<close>

definition seconds_of_day :: "datetime \<Rightarrow> int" where
  "seconds_of_day dt = hour dt * 3600 + minute dt * 60 + second dt"

definition total_seconds_between :: "datetime \<Rightarrow> datetime \<Rightarrow> rat" where
  "total_seconds_between e s =
     of_int ((ordinal e - ordinal s) * 86400 + (seconds_of_day e - seconds_of_day s))
       + utcoffset s - utcoffset e"

text \<open>
  A Python \<open>dict\<close> keeps its keys in insertion order, so it is an association list
  with distinct keys. \<open>dict_modify k d f\<close> is an in-place change \<open>f\<close> of the value
  \<open>days[k]\<close> of a \<open>defaultdict\<close> whose default factory returns \<open>d\<close>: a missing key
  is first inserted (at the end) with the default.
\<close>

fun dict_modify :: "'k \<Rightarrow> 'v \<Rightarrow> ('v \<Rightarrow> 'v) \<Rightarrow> ('k \<times> 'v) list \<Rightarrow> ('k \<times> 'v) list" where
  "dict_modify k d f [] = [(k, f d)]"
| "dict_modify k d f ((k', v) # kvs) =
     (if k' = k then (k', f v) # kvs else (k', v) # dict_modify k d f kvs)"

text \<open>\<open>d[k] = v\<close> on a plain dict: an existing key keeps its position.\<close>

fun dict_set :: "'k \<Rightarrow> 'v \<Rightarrow> ('k \<times> 'v) list \<Rightarrow> ('k \<times> 'v) list" where
  "dict_set k v [] = [(k, v)]"
| "dict_set k v ((k', v') # kvs) =
     (if k' = k then (k', v) # kvs else (k', v') # dict_set k v kvs)"

text \<open>\<open>sub in s\<close> on strings.\<close>

fun starts_with :: "string \<Rightarrow> string \<Rightarrow> bool" where
  "starts_with [] s = True"
| "starts_with (c # cs) [] = False"
| "starts_with (c # cs) (d # ds) = (c = d \<and> starts_with cs ds)"

fun str_contains :: "string \<Rightarrow> string \<Rightarrow> bool" where
  "str_contains sub [] = (sub = [])"
| "str_contains sub (c # cs) = (starts_with sub (c # cs) \<or> str_contains sub cs)"


section \<open>correct\_sleep\_data.py: the correction engine\<close>

text \<open>
  One row of \<open>data/sleep_data.json\<close>, a JSON object. A field is \<open>None\<close> when the key
  is absent from the object. The numbers are the exact values of the JSON numbers, and
  arithmetic on them is exact. The \<open>date\<close> string is represented by what
  \<open>datetime.fromisoformat(entry['date']).date()\<close> makes of it: a date, or the
  exception raised for a value that is not an ISO date string.
\<close>

record entry =
  e_date :: "(exn + date) option"
  e_asleep :: "rat option"
  e_in_bed :: "rat option"
  e_unspecified :: "rat option"
  e_total :: "rat option"
  e_sources :: "string list option"

definition cutoff_date :: date where
  "cutoff_date = ymd2ord 2024 11 20"

text \<open>\<open>datetime.fromisoformat(entry['date']).date()\<close>\<close>

definition entry_date :: "entry \<Rightarrow> exn + date" where
  "entry_date e = (case e_date e of None \<Rightarrow> Inl KeyError | Some p \<Rightarrow> p)"

text \<open>The body of the loop of \<open>correct_sleep_data\<close> for one entry of the copy.\<close>

definition correct_entry :: "date \<Rightarrow> entry \<Rightarrow> exn + entry" where
  "correct_entry cutoff e =
     (case entry_date e of
        Inl x \<Rightarrow> Inl x
      | Inr d \<Rightarrow>
          if d \<ge> cutoff then
            (case e_asleep e of
               None \<Rightarrow> Inl KeyError
             | Some original_asleep \<Rightarrow>
                 (case e_in_bed e of
                    None \<Rightarrow> Inl KeyError
                  | Some in_bed \<Rightarrow> Inr (e\<lparr>e_asleep := Some (max 0 (original_asleep - in_bed))\<rparr>)))
          else Inr e)"

text \<open>\<open>correct_sleep_data(data, cutoff_date)\<close>: the loop over the deep copy. An
  exception in one entry ends the function; nothing is returned then.\<close>

fun correct_sleep_data :: "entry list \<Rightarrow> date \<Rightarrow> exn + entry list" where
  "correct_sleep_data [] cutoff = Inr []"
| "correct_sleep_data (e # es) cutoff =
     (case correct_entry cutoff e of
        Inl x \<Rightarrow> Inl x
      | Inr e' \<Rightarrow>
          (case correct_sleep_data es cutoff of
             Inl x \<Rightarrow> Inl x
           | Inr es' \<Rightarrow> Inr (e' # es')))"

text \<open>\<open>analyze_corrections\<close>: the dict comprehension keyed by date (a later entry
  of the same date replaces the earlier one), then the loop that counts the changed
  rows and sums the reductions. The printed figures are returned.\<close>

fun original_dict :: "entry list \<Rightarrow> (date \<times> entry) list \<Rightarrow> exn + (date \<times> entry) list" where
  "original_dict [] acc = Inr acc"
| "original_dict (e # es) acc =
     (case entry_date e of
        Inl x \<Rightarrow> Inl x
      | Inr d \<Rightarrow> original_dict es (dict_set d e acc))"

fun analyze_loop :: "(date \<times> entry) list \<Rightarrow> entry list \<Rightarrow> nat \<Rightarrow> rat \<Rightarrow> exn + nat \<times> rat" where
  "analyze_loop od [] affected_records total_difference = Inr (affected_records, total_difference)"
| "analyze_loop od (e # es) affected_records total_difference =
     (case entry_date e of
        Inl x \<Rightarrow> Inl x
      | Inr d \<Rightarrow>
          if d \<ge> cutoff_date then
            (case map_of od d of
               None \<Rightarrow> Inl KeyError
             | Some orig \<Rightarrow>
                 (case e_asleep orig of
                    None \<Rightarrow> Inl KeyError
                  | Some original_asleep \<Rightarrow>
                      (case e_asleep e of
                         None \<Rightarrow> Inl KeyError
                       | Some corrected_asleep \<Rightarrow>
                           if original_asleep \<noteq> corrected_asleep
                           then analyze_loop od es (affected_records + 1)
                                  (total_difference + (original_asleep - corrected_asleep))
                           else analyze_loop od es affected_records total_difference)))
          else analyze_loop od es affected_records total_difference)"

definition analyze_corrections :: "entry list \<Rightarrow> entry list \<Rightarrow> exn + nat \<times> rat" where
  "analyze_corrections original_data corrected_data =
     (case original_dict original_data [] of
        Inl x \<Rightarrow> Inl x
      | Inr od \<Rightarrow> analyze_loop od corrected_data 0 0)"

text \<open>
  The files of the \<open>data\<close> directory: a map from path to the JSON document stored
  there (\<open>json.dump\<close> and \<open>json.load\<close> are inverse on these documents). Directories
  are not represented, so \<open>ensure_dir\<close> changes nothing here.
\<close>

type_synonym fs = "string \<Rightarrow> entry list option"

definition original_path :: string where
  "original_path = ''data/sleep_data.json''"

definition corrected_path :: string where
  "corrected_path = ''data/sleep_data_corrected.json''"

definition backup_path :: string where
  "backup_path = ''data/sleep_data_backup.json''"

definition load_sleep_data :: "fs \<Rightarrow> exn + entry list" where
  "load_sleep_data files =
     (case files original_path of
        None \<Rightarrow> Inl FileNotFoundError
      | Some data \<Rightarrow> Inr data)"

text \<open>\<open>save_sleep_data(data, backup=...)\<close> with the default directory and file name.\<close>

definition save_sleep_data :: "entry list \<Rightarrow> bool \<Rightarrow> fs \<Rightarrow> fs" where
  "save_sleep_data data backup files =
     (let files1 =
        (case files original_path of
           None \<Rightarrow> files
         | Some original \<Rightarrow>
             if backup then
               (case files backup_path of
                  None \<Rightarrow> files(backup_path \<mapsto> original)
                | Some b \<Rightarrow> files)
             else files)
      in files1(corrected_path \<mapsto> data))"

text \<open>\<open>update_original_file\<close>; the answer read by \<open>input\<close> is a parameter
  (\<open>None\<close>: end of input, \<open>EOFError\<close>). Only \<open>y\<close> and \<open>Y\<close> lower-case to \<open>y\<close>.\<close>

definition update_original_file :: "entry list \<Rightarrow> string option \<Rightarrow> fs \<Rightarrow> exn + fs" where
  "update_original_file corrected_data answer files =
     (case answer of
        None \<Rightarrow> Inl EOFError
      | Some confirm \<Rightarrow>
          if confirm = ''y'' \<or> confirm = ''Y''
          then Inr (files(original_path \<mapsto> corrected_data))
          else Inr files)"

text \<open>The script body: the files after the run, and the exception reported by the
  top-level handler (\<open>None\<close> when the run completed).\<close>

definition main :: "fs \<Rightarrow> string option \<Rightarrow> fs \<times> exn option" where
  "main files answer =
     (case load_sleep_data files of
        Inl x \<Rightarrow> (files, Some x)
      | Inr original_data \<Rightarrow>
          (case correct_sleep_data original_data cutoff_date of
             Inl x \<Rightarrow> (files, Some x)
           | Inr corrected_data \<Rightarrow>
               (case analyze_corrections original_data corrected_data of
                  Inl x \<Rightarrow> (files, Some x)
                | Inr report \<Rightarrow>
                    (let files1 = save_sleep_data corrected_data True files in
                     case update_original_file corrected_data answer files1 of
                       Inl x \<Rightarrow> (files1, Some x)
                     | Inr files2 \<Rightarrow> (files2, None)))))"

section \<open>extract\_sleep\_data.py: sleep records and the night aggregator\<close>

text \<open>
  A \<open>Record\<close> element of the export whose type is the sleep analysis category. The
  two timestamp attributes are represented by what \<open>parse_datetime(record.get(...))\<close>
  makes of them: a datetime, \<open>ValueError\<close> for a string that does not match the
  format, \<open>TypeError\<close> for an absent attribute. \<open>None\<close> is an absent attribute.
\<close>

record raw_sleep =
  rs_value :: "string option"
  rs_startDate :: "exn + datetime"
  rs_endDate :: "exn + datetime"
  rs_sourceName :: "string option"

record sleep_record =
  sl_start_date :: datetime
  sl_end_date :: datetime
  sl_duration :: rat
  sl_value :: "string option"
  sl_source :: string
  sl_night_date :: date
  sl_is_nap :: bool

text \<open>What the loops print: one line for each exception caught in the loop body, and
  the number of records found at the end.\<close>

datatype msg = ErrorProcessing exn | Found nat

text \<open>The \<open>try\<close> block of \<open>get_sleep_records\<close> for one element: an exception, or
  \<open>None\<close> for \<open>continue\<close>, or the record that is appended.\<close>

definition sleep_try :: "raw_sleep \<Rightarrow> exn + sleep_record option" where
  "sleep_try record =
     (let value = rs_value record in
      case rs_startDate record of
        Inl x \<Rightarrow> Inl x
      | Inr start_date \<Rightarrow>
          (case rs_endDate record of
             Inl x \<Rightarrow> Inl x
           | Inr end_date \<Rightarrow>
               (let source = (case rs_sourceName record of None \<Rightarrow> ''Unknown'' | Some s \<Rightarrow> s);
                    duration = total_seconds_between end_date start_date / 3600
                in if duration < 1 / 10 \<or> duration > 24 then Inr None
                   else
                     (let is_nap = (hour start_date < 18 \<and> hour start_date > 8) in
                      case (if hour start_date < 6
                            then (case datetime_sub_days start_date 1 of
                                    Inl x \<Rightarrow> Inl x
                                  | Inr d \<Rightarrow> Inr (ordinal d))
                            else Inr (ordinal start_date)) of
                        Inl x \<Rightarrow> Inl x
                      | Inr night_date \<Rightarrow>
                          Inr (Some \<lparr>sl_start_date = start_date, sl_end_date = end_date,
                                     sl_duration = duration, sl_value = value,
                                     sl_source = source, sl_night_date = night_date,
                                     sl_is_nap = is_nap\<rparr>)))))"

text \<open>The loop of \<open>get_sleep_records\<close>: \<open>ValueError\<close> and \<open>TypeError\<close> are caught
  and printed, any other exception leaves the function.\<close>

fun sleep_loop ::
  "raw_sleep list \<Rightarrow> sleep_record list \<Rightarrow> msg list \<Rightarrow> (exn + sleep_record list) \<times> msg list" where
  "sleep_loop [] sleep_records out = (Inr sleep_records, out @ [Found (length sleep_records)])"
| "sleep_loop (record # rest) sleep_records out =
     (case sleep_try record of
        Inr (Some r) \<Rightarrow> sleep_loop rest (sleep_records @ [r]) out
      | Inr None \<Rightarrow> sleep_loop rest sleep_records out
      | Inl e \<Rightarrow>
          if e = ValueError \<or> e = TypeError
          then sleep_loop rest sleep_records (out @ [ErrorProcessing e])
          else (Inl e, out))"

definition get_sleep_records :: "raw_sleep list \<Rightarrow> (exn + sleep_record list) \<times> msg list" where
  "get_sleep_records records = sleep_loop records [] []"

record night =
  n_asleep :: rat
  n_in_bed :: rat
  n_unspecified :: rat
  n_total :: rat
  n_sources :: "string set"

definition night_default :: night where
  "night_default = \<lparr>n_asleep = 0, n_in_bed = 0, n_unspecified = 0, n_total = 0, n_sources = {}\<rparr>"

text \<open>The loop of \<open>aggregate_sleep_by_night\<close>. \<open>'Asleep' in value\<close> raises
  \<open>TypeError\<close> when the element had no \<open>value\<close> attribute.\<close>

fun nights_loop :: "sleep_record list \<Rightarrow> (date \<times> night) list \<Rightarrow> exn + (date \<times> night) list" where
  "nights_loop [] nights = Inr nights"
| "nights_loop (record # rest) nights =
     (let night = sl_night_date record; duration = sl_duration record;
          value = sl_value record; source = sl_source record
      in if sl_is_nap record then nights_loop rest nights
         else
           (let nights1 = dict_modify night night_default
                            (\<lambda>n. n\<lparr>n_sources := insert source (n_sources n)\<rparr>) nights
            in case value of
                 None \<Rightarrow> Inl TypeError
               | Some v \<Rightarrow>
                   (let nights2 =
                      (if str_contains ''Asleep'' v
                       then dict_modify night night_default
                              (\<lambda>n. n\<lparr>n_asleep := n_asleep n + duration\<rparr>) nights1
                       else if str_contains ''InBed'' v
                       then dict_modify night night_default
                              (\<lambda>n. n\<lparr>n_in_bed := n_in_bed n + duration\<rparr>) nights1
                       else dict_modify night night_default
                              (\<lambda>n. n\<lparr>n_unspecified := n_unspecified n + duration\<rparr>) nights1)
                    in nights_loop rest
                         (dict_modify night night_default
                            (\<lambda>n. n\<lparr>n_total := n_total n + duration\<rparr>) nights2))))"

record sleep_row =
  sr_date :: date
  sr_asleep :: rat
  sr_in_bed :: rat
  sr_unspecified :: rat
  sr_total :: rat
  sr_sources :: "string set"

definition sleep_row_of :: "date \<times> night \<Rightarrow> sleep_row" where
  "sleep_row_of item =
     \<lparr>sr_date = fst item, sr_asleep = n_asleep (snd item), sr_in_bed = n_in_bed (snd item),
      sr_unspecified = n_unspecified (snd item), sr_total = n_total (snd item),
      sr_sources = n_sources (snd item)\<rparr>"

definition aggregate_sleep_by_night :: "sleep_record list \<Rightarrow> exn + sleep_row list" where
  "aggregate_sleep_by_night sleep_records =
     (case nights_loop sleep_records [] of
        Inl x \<Rightarrow> Inl x
      | Inr nights \<Rightarrow> Inr (sort_key sr_date (map sleep_row_of nights)))"


section \<open>extract\_step\_count.py: step records and the daily aggregator\<close>

text \<open>A Python \<open>float\<close>: a finite value, an infinity or a NaN.\<close>

datatype pyfloat = Finite rat | PosInf | NegInf | NaN

text \<open>\<open>int(x)\<close> truncates towards zero; it raises \<open>ValueError\<close> on a NaN and
  \<open>OverflowError\<close> on an infinity.\<close>

definition py_int :: "pyfloat \<Rightarrow> exn + int" where
  "py_int x =
     (case x of
        Finite r \<Rightarrow> Inr (if r \<ge> 0 then \<lfloor>r\<rfloor> else \<lceil>r\<rceil>)
      | PosInf \<Rightarrow> Inl OverflowError
      | NegInf \<Rightarrow> Inl OverflowError
      | NaN \<Rightarrow> Inl ValueError)"

text \<open>A \<open>Record\<close> element of the step count type. \<open>qs_value\<close> is what
  \<open>float(record.get('value', 0))\<close> makes of the attribute.\<close>

record raw_step =
  qs_value :: "exn + pyfloat"
  qs_startDate :: "exn + datetime"
  qs_endDate :: "exn + datetime"
  qs_unit :: "string option"
  qs_sourceName :: "string option"

record step_record =
  st_start_date :: datetime
  st_end_date :: datetime
  st_value :: int
  st_unit :: string
  st_source :: string
  st_date :: date

definition step_try :: "raw_step \<Rightarrow> exn + step_record option" where
  "step_try record =
     (case qs_value record of
        Inl x \<Rightarrow> Inl x
      | Inr f \<Rightarrow>
          (case py_int f of
             Inl x \<Rightarrow> Inl x
           | Inr value \<Rightarrow>
               (case qs_startDate record of
                  Inl x \<Rightarrow> Inl x
                | Inr start_date \<Rightarrow>
                    (case qs_endDate record of
                       Inl x \<Rightarrow> Inl x
                     | Inr end_date \<Rightarrow>
                         (let unit = (case qs_unit record of None \<Rightarrow> ''count'' | Some u \<Rightarrow> u);
                              source = (case qs_sourceName record of None \<Rightarrow> ''Unknown'' | Some s \<Rightarrow> s)
                          in if value \<le> 0 then Inr None
                             else Inr (Some \<lparr>st_start_date = start_date, st_end_date = end_date,
                                              st_value = value, st_unit = unit, st_source = source,
                                              st_date = ordinal start_date\<rparr>))))))"

fun step_loop ::
  "raw_step list \<Rightarrow> step_record list \<Rightarrow> msg list \<Rightarrow> (exn + step_record list) \<times> msg list" where
  "step_loop [] step_records out = (Inr step_records, out @ [Found (length step_records)])"
| "step_loop (record # rest) step_records out =
     (case step_try record of
        Inr (Some r) \<Rightarrow> step_loop rest (step_records @ [r]) out
      | Inr None \<Rightarrow> step_loop rest step_records out
      | Inl e \<Rightarrow>
          if e = ValueError \<or> e = TypeError
          then step_loop rest step_records (out @ [ErrorProcessing e])
          else (Inl e, out))"

definition get_step_count_records :: "raw_step list \<Rightarrow> (exn + step_record list) \<times> msg list" where
  "get_step_count_records records = step_loop records [] []"

record day =
  d_total :: int
  d_sources :: "string set"

definition day_default :: day where
  "day_default = \<lparr>d_total = 0, d_sources = {}\<rparr>"

fun days_loop :: "step_record list \<Rightarrow> (date \<times> day) list \<Rightarrow> (date \<times> day) list" where
  "days_loop [] days = days"
| "days_loop (record # rest) days =
     (let date = st_date record; value = st_value record; source = st_source record;
          days1 = dict_modify date day_default (\<lambda>d. d\<lparr>d_total := d_total d + value\<rparr>) days;
          days2 = dict_modify date day_default (\<lambda>d. d\<lparr>d_sources := insert source (d_sources d)\<rparr>) days1
      in days_loop rest days2)"

record step_row =
  sd_date :: date
  steps :: int
  sd_sources :: "string set"

definition step_row_of :: "date \<times> day \<Rightarrow> step_row" where
  "step_row_of item =
     \<lparr>sd_date = fst item, steps = d_total (snd item), sd_sources = d_sources (snd item)\<rparr>"

text \<open>\<open>aggregate_by_day\<close> of extract\_step\_count.py.\<close>

definition step_aggregate_by_day :: "step_record list \<Rightarrow> step_row list" where
  "step_aggregate_by_day records = sort_key sd_date (map step_row_of (days_loop records []))"


section \<open>extract\_resting\_hr.py: resting heart rate records and the daily aggregator\<close>

subsection \<open>Floating point\<close>

text \<open>
  A finite Python \<open>float\<close> is a binary64 number: an integer of magnitude below
  \<open>2^53\<close> times a power of two from \<open>2^-1074\<close> to \<open>2^971\<close>. \<open>fl64 x\<close> is the
  binary64 number nearest to the rational \<open>x\<close>, a tie going to the even integer: the
  result of a correctly rounded operation whose exact result is \<open>x\<close>.
  \<open>float_exponent x\<close> is the exponent of the power of two for a magnitude \<open>x\<close>: the
  largest \<open>e\<close> from \<open>-1074\<close> to \<open>971\<close> with \<open>2^(52+e) \<le> x\<close>, and \<open>-1074\<close> when
  there is none. Magnitudes that round to \<open>2^1024\<close> or more, where Python overflows,
  do not arise from the mean or the rounding of binary64 numbers.
\<close>

definition round_half_even :: "rat \<Rightarrow> int" where
  "round_half_even y =
     (let f = \<lfloor>y\<rfloor>; d = y - of_int f
      in if d < 1 / 2 then f
         else if d > 1 / 2 then f + 1
         else if even f then f else f + 1)"

primrec float_exponent_below :: "nat \<Rightarrow> rat \<Rightarrow> int" where
  "float_exponent_below 0 x = - 1074"
| "float_exponent_below (Suc n) x =
     (if 2 powi (int n - 1021) \<le> x then int n - 1073 else float_exponent_below n x)"

definition float_exponent :: "rat \<Rightarrow> int" where
  "float_exponent x = float_exponent_below 2045 x"

definition round_magnitude :: "rat \<Rightarrow> rat" where
  "round_magnitude x =
     (let e = float_exponent x in of_int (round_half_even (x / 2 powi e)) * 2 powi e)"

definition fl64 :: "rat \<Rightarrow> rat" where
  "fl64 x = (if x < 0 then - round_magnitude (- x) else round_magnitude x)"

definition is_double :: "rat \<Rightarrow> bool" where
  "is_double x = (\<bar>x\<bar> < 2 ^ 1024 \<and> fl64 x = x)"

text \<open>\<open>a < b\<close> and \<open>a <= b\<close> on floats: false when either side is a NaN.\<close>

fun py_less :: "pyfloat \<Rightarrow> pyfloat \<Rightarrow> bool" where
  "py_less NaN b = False"
| "py_less a NaN = False"
| "py_less PosInf b = False"
| "py_less a NegInf = False"
| "py_less NegInf b = True"
| "py_less a PosInf = True"
| "py_less (Finite a) (Finite b) = (a < b)"

fun py_le :: "pyfloat \<Rightarrow> pyfloat \<Rightarrow> bool" where
  "py_le NaN b = False"
| "py_le a NaN = False"
| "py_le NegInf b = True"
| "py_le a PosInf = True"
| "py_le PosInf b = False"
| "py_le a NegInf = False"
| "py_le (Finite a) (Finite b) = (a \<le> b)"

text \<open>\<open>a + b\<close> on floats.\<close>

fun py_add :: "pyfloat \<Rightarrow> pyfloat \<Rightarrow> pyfloat" where
  "py_add NaN b = NaN"
| "py_add a NaN = NaN"
| "py_add PosInf NegInf = NaN"
| "py_add NegInf PosInf = NaN"
| "py_add PosInf b = PosInf"
| "py_add NegInf b = NegInf"
| "py_add a PosInf = PosInf"
| "py_add a NegInf = NegInf"
| "py_add (Finite a) (Finite b) = Finite (fl64 (a + b))"

fun finite_of :: "pyfloat \<Rightarrow> rat option" where
  "finite_of (Finite r) = Some r"
| "finite_of PosInf = None"
| "finite_of NegInf = None"
| "finite_of NaN = None"

text \<open>
  \<open>statistics.mean\<close> of a non-empty list of floats. The finite values are summed
  exactly as fractions; the sum is divided by the count and the quotient is converted
  to the nearest float. When the list holds a NaN or an infinity, the result is the
  float sum of these values alone (dividing it by the count does not change it).
\<close>

definition statistics_mean :: "pyfloat list \<Rightarrow> pyfloat" where
  "statistics_mean data =
     (case filter (\<lambda>v. finite_of v = None) data of
        [] \<Rightarrow> Finite (fl64 (sum_list (List.map_filter finite_of data) / of_nat (length data)))
      | s # ss \<Rightarrow> fold (\<lambda>x total. py_add total x) ss s)"

text \<open>\<open>round(x, 1)\<close>: the exact value of \<open>x\<close> is rounded to the nearest multiple of
  one tenth, a tie to the even one, and the float nearest to that decimal is returned. A
  NaN and an infinity are returned as they are.\<close>

definition round1 :: "rat \<Rightarrow> rat" where
  "round1 x = fl64 (of_int (round_half_even (x * 10)) / 10)"

definition py_round1 :: "pyfloat \<Rightarrow> pyfloat" where
  "py_round1 x = (case x of Finite r \<Rightarrow> Finite (round1 r) | PosInf \<Rightarrow> PosInf | NegInf \<Rightarrow> NegInf | NaN \<Rightarrow> NaN)"

text \<open>\<open>min\<close> and \<open>max\<close> of a list with first element \<open>v\<close>: the candidate is
  replaced by an item that is less, or greater, than it.\<close>

definition py_min :: "pyfloat \<Rightarrow> pyfloat list \<Rightarrow> pyfloat" where
  "py_min v vs = fold (\<lambda>item current. if py_less item current then item else current) vs v"

definition py_max :: "pyfloat \<Rightarrow> pyfloat list \<Rightarrow> pyfloat" where
  "py_max v vs = fold (\<lambda>item current. if py_less current item then item else current) vs v"

subsection \<open>Extraction\<close>

text \<open>A \<open>Record\<close> element of the resting heart rate type has the attributes of a
  step count element; \<open>qs_value\<close> is again what \<open>float(record.get('value', 0))\<close>
  makes of the attribute.\<close>

record rhr_record =
  hr_start_date :: datetime
  hr_end_date :: datetime
  hr_value :: pyfloat
  hr_unit :: string
  hr_source :: string
  hr_date :: date

definition rhr_try :: "raw_step \<Rightarrow> exn + rhr_record option" where
  "rhr_try record =
     (case qs_value record of
        Inl x \<Rightarrow> Inl x
      | Inr value \<Rightarrow>
          (case qs_startDate record of
             Inl x \<Rightarrow> Inl x
           | Inr start_date \<Rightarrow>
               (case qs_endDate record of
                  Inl x \<Rightarrow> Inl x
                | Inr end_date \<Rightarrow>
                    (let unit = (case qs_unit record of None \<Rightarrow> ''count/min'' | Some u \<Rightarrow> u);
                         source = (case qs_sourceName record of None \<Rightarrow> ''Unknown'' | Some s \<Rightarrow> s)
                     in if py_le value (Finite 0) \<or> py_less (Finite 200) value
                        then Inr None
                        else Inr (Some \<lparr>hr_start_date = start_date, hr_end_date = end_date,
                                         hr_value = value, hr_unit = unit, hr_source = source,
                                         hr_date = ordinal start_date\<rparr>)))))"

fun rhr_loop ::
  "raw_step list \<Rightarrow> rhr_record list \<Rightarrow> msg list \<Rightarrow> (exn + rhr_record list) \<times> msg list" where
  "rhr_loop [] rhr_records out = (Inr rhr_records, out @ [Found (length rhr_records)])"
| "rhr_loop (record # rest) rhr_records out =
     (case rhr_try record of
        Inr (Some r) \<Rightarrow> rhr_loop rest (rhr_records @ [r]) out
      | Inr None \<Rightarrow> rhr_loop rest rhr_records out
      | Inl e \<Rightarrow>
          if e = ValueError \<or> e = TypeError
          then rhr_loop rest rhr_records (out @ [ErrorProcessing e])
          else (Inl e, out))"

definition get_resting_hr_records :: "raw_step list \<Rightarrow> (exn + rhr_record list) \<times> msg list" where
  "get_resting_hr_records records = rhr_loop records [] []"

subsection \<open>Aggregation\<close>

record rhr_day =
  h_values :: "pyfloat list"
  h_sources :: "string set"

definition rhr_day_default :: rhr_day where
  "rhr_day_default = \<lparr>h_values = [], h_sources = {}\<rparr>"

fun rhr_days_loop :: "rhr_record list \<Rightarrow> (date \<times> rhr_day) list \<Rightarrow> (date \<times> rhr_day) list" where
  "rhr_days_loop [] days = days"
| "rhr_days_loop (record # rest) days =
     (let date = hr_date record; value = hr_value record; source = hr_source record;
          days1 = dict_modify date rhr_day_default (\<lambda>d. d\<lparr>h_values := h_values d @ [value]\<rparr>) days;
          days2 = dict_modify date rhr_day_default (\<lambda>d. d\<lparr>h_sources := insert source (h_sources d)\<rparr>) days1
      in rhr_days_loop rest days2)"

record rhr_row =
  hd_date :: date
  resting_hr :: pyfloat
  min_hr :: pyfloat
  max_hr :: pyfloat
  readings :: nat
  hd_sources :: "string set"

fun rhr_rows :: "(date \<times> rhr_day) list \<Rightarrow> rhr_row list" where
  "rhr_rows [] = []"
| "rhr_rows ((date, data) # items) =
     (case h_values data of
        [] \<Rightarrow> rhr_rows items
      | v # vs \<Rightarrow>
          \<lparr>hd_date = date, resting_hr = py_round1 (statistics_mean (v # vs)),
           min_hr = py_min v vs, max_hr = py_max v vs,
           readings = length (v # vs), hd_sources = h_sources data\<rparr> # rhr_rows items)"

text \<open>\<open>aggregate_by_day\<close> of extract\_resting\_hr.py.\<close>

definition rhr_aggregate_by_day :: "rhr_record list \<Rightarrow> rhr_row list" where
  "rhr_aggregate_by_day records = sort_key hd_date (rhr_rows (rhr_days_loop records []))"


section \<open>Auxiliary notions\<close>

text \<open>An entry that the correction loop can process: its date is a date and, from
  the cutoff on, it has an \<open>asleep\<close> field.\<close>

definition readable :: "entry \<Rightarrow> bool" where
  "readable e =
     (case entry_date e of
        Inl x \<Rightarrow> False
      | Inr d \<Rightarrow> if d \<ge> cutoff_date then e_asleep e \<noteq> None else True)"


text \<open>The values of the resting heart rate records of one date, in input order, and
  the exact arithmetic mean of a list of numbers.\<close>

definition bucket_values :: "rhr_record list \<Rightarrow> date \<Rightarrow> pyfloat list" where
  "bucket_values records d = map hr_value (filter (\<lambda>r. hr_date r = d) records)"

definition mean :: "rat list \<Rightarrow> rat" where
  "mean vs = sum_list vs / of_nat (length vs)"


text \<open>
  The outcome of a loop body that the loop survives: no exception, or one of the two
  that the handler catches. \<open>accepted\<close> are the records appended for a list of
  elements and \<open>diagnostics\<close> the lines printed by the handler, both in input order.
\<close>

definition recovered :: "exn + 'b \<Rightarrow> bool" where
  "recovered t = (case t of Inl e \<Rightarrow> e = ValueError \<or> e = TypeError | Inr r \<Rightarrow> True)"

definition accepted :: "('a \<Rightarrow> exn + 'b option) \<Rightarrow> 'a list \<Rightarrow> 'b list" where
  "accepted try records =
     List.map_filter (\<lambda>x. case try x of Inl e \<Rightarrow> None | Inr None \<Rightarrow> None | Inr (Some r) \<Rightarrow> Some r) records"

definition diagnostics :: "('a \<Rightarrow> exn + 'b option) \<Rightarrow> 'a list \<Rightarrow> msg list" where
  "diagnostics try records =
     List.map_filter (\<lambda>x. case try x of Inl e \<Rightarrow> Some (ErrorProcessing e) | Inr r \<Rightarrow> None) records"


text \<open>
  The three categories of a sleep label, in the order in which the aggregator tests
  for them; the change that one record makes to the accumulator of its night; the
  records that count for a night (not naps, of that night date); the hours of one
  category among some records; and a record that has a label at all.
\<close>

datatype category = Asleep | InBed | Unspecified

definition category_of :: "string \<Rightarrow> category" where
  "category_of value =
     (if str_contains ''Asleep'' value then Asleep
      else if str_contains ''InBed'' value then InBed
      else Unspecified)"

definition night_add :: "sleep_record \<Rightarrow> night \<Rightarrow> night" where
  "night_add r n =
     (case sl_value r of
        None \<Rightarrow> n
      | Some v \<Rightarrow>
          (case category_of v of
             Asleep \<Rightarrow> n\<lparr>n_asleep := n_asleep n + sl_duration r\<rparr>
           | InBed \<Rightarrow> n\<lparr>n_in_bed := n_in_bed n + sl_duration r\<rparr>
           | Unspecified \<Rightarrow> n\<lparr>n_unspecified := n_unspecified n + sl_duration r\<rparr>)
          \<lparr>n_total := n_total n + sl_duration r, n_sources := insert (sl_source r) (n_sources n)\<rparr>)"

definition included :: "sleep_record list \<Rightarrow> date \<Rightarrow> sleep_record list" where
  "included records d = filter (\<lambda>r. sl_night_date r = d) (filter (\<lambda>r. \<not> sl_is_nap r) records)"

definition hours :: "category \<Rightarrow> sleep_record list \<Rightarrow> rat" where
  "hours c rs =
     sum_list (map sl_duration (filter (\<lambda>r. map_option category_of (sl_value r) = Some c) rs))"

definition labelled :: "sleep_record \<Rightarrow> bool" where
  "labelled r = (sl_value r \<noteq> None)"


section \<open>Example data\<close>

text \<open>A complete row of the sleep summary with the given date, \<open>asleep\<close> and
  \<open>in_bed\<close> hours.\<close>

definition summary_row :: "date \<Rightarrow> rat \<Rightarrow> rat \<Rightarrow> entry" where
  "summary_row d a b =
     \<lparr>e_date = Some (Inr d), e_asleep = Some a, e_in_bed = Some b,
      e_unspecified = Some 0, e_total = Some (a + b), e_sources = Some [''Watch'']\<rparr>"

definition example_summary :: "entry list" where
  "example_summary =
     [summary_row (ymd2ord 2024 11 20) 8 1,
      summary_row (ymd2ord 2024 11 19) 8 1,
      summary_row (ymd2ord 2024 11 21) (1 / 2) 2]"

text \<open>The data directory with the sleep summary only, and the empty one.\<close>

definition no_files :: fs where
  "no_files = Map.empty"

definition example_files :: fs where
  "example_files = no_files(original_path \<mapsto> example_summary)"





text \<open>Two step count elements of 2024-01-01, 3000 steps from the phone and 4500 from
  the watch, and the records extracted from them.\<close>

definition new_year_at :: "int \<Rightarrow> int \<Rightarrow> datetime" where
  "new_year_at h m = \<lparr>ordinal = ymd2ord 2024 1 1, hour = h, minute = m, second = 0, utcoffset = 0\<rparr>"

definition example_raw_steps :: "raw_step list" where
  "example_raw_steps =
     [\<lparr>qs_value = Inr (Finite 3000), qs_startDate = Inr (new_year_at 9 0),
       qs_endDate = Inr (new_year_at 9 30), qs_unit = Some ''count'', qs_sourceName = Some ''Phone''\<rparr>,
      \<lparr>qs_value = Inr (Finite 4500), qs_startDate = Inr (new_year_at 17 0),
       qs_endDate = Inr (new_year_at 17 45), qs_unit = Some ''count'', qs_sourceName = Some ''Watch''\<rparr>]"

definition example_steps :: "step_record list" where
  "example_steps =
     [\<lparr>st_start_date = new_year_at 9 0, st_end_date = new_year_at 9 30, st_value = 3000,
       st_unit = ''count'', st_source = ''Phone'', st_date = ymd2ord 2024 1 1\<rparr>,
      \<lparr>st_start_date = new_year_at 17 0, st_end_date = new_year_at 17 45, st_value = 4500,
       st_unit = ''count'', st_source = ''Watch'', st_date = ymd2ord 2024 1 1\<rparr>]"

text \<open>Resting heart rate readings of 2024-01-01: a record and an element with a given
  value; the float nearest to 60.04; the readings 58 and 61; and seventeen readings of
  60 with three of 61, whose exact mean 60.15 is not a float, and their elements.\<close>

definition reading :: "pyfloat \<Rightarrow> rhr_record" where
  "reading v =
     \<lparr>hr_start_date = new_year_at 6 0, hr_end_date = new_year_at 6 0, hr_value = v,
      hr_unit = ''count/min'', hr_source = ''Watch'', hr_date = ymd2ord 2024 1 1\<rparr>"

definition raw_reading :: "pyfloat \<Rightarrow> raw_step" where
  "raw_reading v =
     \<lparr>qs_value = Inr v, qs_startDate = Inr (new_year_at 6 0), qs_endDate = Inr (new_year_at 6 0),
      qs_unit = Some ''count/min'', qs_sourceName = Some ''Watch''\<rparr>"

definition float_60_04 :: rat where
  "float_60_04 = 8449878800853893 / 140737488355328"

definition float_60_15 :: rat where
  "float_60_15 = 8465359924572979 / 140737488355328"

definition float_60_1 :: rat where
  "float_60_1 = 8458323050155213 / 140737488355328"

definition example_readings :: "rhr_record list" where
  "example_readings = [reading (Finite 58), reading (Finite 61)]"

definition twenty_readings :: "rhr_record list" where
  "twenty_readings = replicate 17 (reading (Finite 60)) @ replicate 3 (reading (Finite 61))"

definition twenty_elements :: "raw_step list" where
  "twenty_elements = replicate 17 (raw_reading (Finite 60)) @ replicate 3 (raw_reading (Finite 61))"

text \<open>Sleep elements of 2024-03-01 (UTC+1): a session from 01:30 to 05:00, one from
  07:00 to 07:45, one of a single minute, one whose start does not parse; and the
  records extracted from the first two.\<close>

definition march_first_at :: "int \<Rightarrow> int \<Rightarrow> datetime" where
  "march_first_at h m = \<lparr>ordinal = ymd2ord 2024 3 1, hour = h, minute = m, second = 0, utcoffset = 3600\<rparr>"

definition night_session :: raw_sleep where
  "night_session =
     \<lparr>rs_value = Some ''HKCategoryValueSleepAnalysisAsleepCore'',
      rs_startDate = Inr (march_first_at 1 30), rs_endDate = Inr (march_first_at 5 0),
      rs_sourceName = Some ''Watch''\<rparr>"

definition morning_session :: raw_sleep where
  "morning_session =
     \<lparr>rs_value = Some ''HKCategoryValueSleepAnalysisInBed'',
      rs_startDate = Inr (march_first_at 7 0), rs_endDate = Inr (march_first_at 7 45),
      rs_sourceName = Some ''Phone''\<rparr>"

definition short_session :: raw_sleep where
  "short_session =
     \<lparr>rs_value = Some ''HKCategoryValueSleepAnalysisAwake'',
      rs_startDate = Inr (march_first_at 3 0), rs_endDate = Inr (march_first_at 3 1),
      rs_sourceName = Some ''Watch''\<rparr>"

definition undated_session :: raw_sleep where
  "undated_session =
     \<lparr>rs_value = Some ''HKCategoryValueSleepAnalysisInBed'',
      rs_startDate = Inl ValueError, rs_endDate = Inr (march_first_at 7 45),
      rs_sourceName = Some ''Phone''\<rparr>"

definition night_record :: sleep_record where
  "night_record =
     \<lparr>sl_start_date = march_first_at 1 30, sl_end_date = march_first_at 5 0,
      sl_duration = 7 / 2, sl_value = Some ''HKCategoryValueSleepAnalysisAsleepCore'',
      sl_source = ''Watch'', sl_night_date = ymd2ord 2024 2 29, sl_is_nap = False\<rparr>"

definition morning_record :: sleep_record where
  "morning_record =
     \<lparr>sl_start_date = march_first_at 7 0, sl_end_date = march_first_at 7 45,
      sl_duration = 3 / 4, sl_value = Some ''HKCategoryValueSleepAnalysisInBed'',
      sl_source = ''Phone'', sl_night_date = ymd2ord 2024 3 1, sl_is_nap = False\<rparr>"

text \<open>Step elements with the values 0 and infinity.\<close>

definition zero_steps :: raw_step where
  "zero_steps =
     \<lparr>qs_value = Inr (Finite 0), qs_startDate = Inr (march_first_at 9 0),
      qs_endDate = Inr (march_first_at 9 30), qs_unit = Some ''count'', qs_sourceName = Some ''Phone''\<rparr>"

definition infinite_steps :: raw_step where
  "infinite_steps =
     \<lparr>qs_value = Inr PosInf, qs_startDate = Inr (march_first_at 9 0),
      qs_endDate = Inr (march_first_at 9 30), qs_unit = Some ''count'', qs_sourceName = Some ''Phone''\<rparr>"

text \<open>More records of the night of 2024-02-29, a nap at 14:00 on 2024-03-01 with the
  element it comes from, and the row of that night.\<close>

definition evening_record :: sleep_record where
  "evening_record =
     \<lparr>sl_start_date = \<lparr>ordinal = ymd2ord 2024 2 29, hour = 23, minute = 0, second = 0, utcoffset = 3600\<rparr>,
      sl_end_date = march_first_at 0 0,
      sl_duration = 1, sl_value = Some ''HKCategoryValueSleepAnalysisInBed'',
      sl_source = ''Phone'', sl_night_date = ymd2ord 2024 2 29, sl_is_nap = False\<rparr>"

definition awake_record :: sleep_record where
  "awake_record =
     \<lparr>sl_start_date = march_first_at 5 0, sl_end_date = march_first_at 5 15,
      sl_duration = 1 / 4, sl_value = Some ''HKCategoryValueSleepAnalysisAwake'',
      sl_source = ''Watch'', sl_night_date = ymd2ord 2024 2 29, sl_is_nap = False\<rparr>"

definition nap_record :: sleep_record where
  "nap_record =
     \<lparr>sl_start_date = march_first_at 14 0, sl_end_date = march_first_at 15 0,
      sl_duration = 1, sl_value = Some ''HKCategoryValueSleepAnalysisAsleepCore'',
      sl_source = ''Couch'', sl_night_date = ymd2ord 2024 3 1, sl_is_nap = True\<rparr>"

definition leap_night_row :: sleep_row where
  "leap_night_row =
     \<lparr>sr_date = ymd2ord 2024 2 29, sr_asleep = 7 / 2, sr_in_bed = 1, sr_unspecified = 1 / 4,
      sr_total = 19 / 4, sr_sources = {''Watch'', ''Phone''}\<rparr>"

definition nap_session :: raw_sleep where
  "nap_session =
     \<lparr>rs_value = Some ''HKCategoryValueSleepAnalysisAsleepCore'',
      rs_startDate = Inr (march_first_at 14 0), rs_endDate = Inr (march_first_at 15 0),
      rs_sourceName = Some ''Couch''\<rparr>"


section \<open>Calendar and arithmetic facts\<close>

lemma cutoff_date_ordinal: "cutoff_date = 739210"
  by (simp add: cutoff_date_def ymd2ord_def days_before_year_def days_before_month_def is_leap_def)

lemma example_ordinals:
  "ymd2ord 2024 11 19 = 739209" "ymd2ord 2024 11 20 = 739210" "ymd2ord 2024 11 21 = 739211"
  by (simp_all add: ymd2ord_def days_before_year_def days_before_month_def is_leap_def)


lemma ord_2024_01_01: "ymd2ord 2024 1 1 = 738886"
  by (simp add: ymd2ord_def days_before_year_def days_before_month_def is_leap_def)


lemma march_ordinals: "ymd2ord 2024 3 1 = 738946" "ymd2ord 2024 2 29 = 738945"
  by (simp_all add: ymd2ord_def days_before_year_def days_before_month_def is_leap_def)


section \<open>The correction rule\<close>

lemma correct_sleep_data_length:
  "correct_sleep_data data c = Inr out \<Longrightarrow> length out = length data"
  by (induction data arbitrary: out) (auto split: sum.splits)

lemma correct_sleep_data_nth:
  "correct_sleep_data data c = Inr out \<Longrightarrow> i < length data \<Longrightarrow>
     correct_entry c (data ! i) = Inr (out ! i)"
proof (induction data arbitrary: out i)
  case Nil
  then show ?case by simp
next
  case (Cons e es)
  then show ?case
    by (cases i) (auto split: sum.splits)
qed

lemma correct_entry_cases:
  assumes "correct_entry c e = Inr e'"
  shows "\<exists>d. e_date e = Some (Inr d) \<and>
           (if d \<ge> c
            then \<exists>a b. e_asleep e = Some a \<and> e_in_bed e = Some b \<and>
                   e' = e\<lparr>e_asleep := Some (max 0 (a - b))\<rparr>
            else e' = e)"
  using assms
  by (auto simp: correct_entry_def entry_date_def split: option.splits sum.splits if_splits)

lemma correct_example_summary:
  "correct_sleep_data example_summary cutoff_date =
     Inr [(summary_row (ymd2ord 2024 11 20) 8 1)\<lparr>e_asleep := Some 7\<rparr>,
          summary_row (ymd2ord 2024 11 19) 8 1,
          (summary_row (ymd2ord 2024 11 21) (1 / 2) 2)\<lparr>e_asleep := Some 0\<rparr>]"
  by (simp add: example_summary_def summary_row_def cutoff_date_ordinal example_ordinals
      correct_entry_def entry_date_def)

text \<open>
  C1. When \<open>correct_sleep_data\<close> returns, it returns one row for each row of its
  input, in the same order. A row dated on or after the cutoff 2024-11-20 has its
  \<open>asleep\<close> replaced by \<open>max(0, asleep - in_bed)\<close> and is otherwise unchanged; a row
  dated before the cutoff is returned unchanged.
\<close>

theorem correct_sleep_data_rows:
  assumes "correct_sleep_data data cutoff_date = Inr out"
  shows "cutoff_date = ymd2ord 2024 11 20 \<and> length out = length data \<and>
    (\<forall>i < length data. \<exists>d. e_date (data ! i) = Some (Inr d) \<and>
       (if d \<ge> cutoff_date
        then \<exists>a b. e_asleep (data ! i) = Some a \<and> e_in_bed (data ! i) = Some b \<and>
               out ! i = (data ! i)\<lparr>e_asleep := Some (max 0 (a - b))\<rparr>
        else out ! i = data ! i))"
proof -
  have "length out = length data"
    using assms by (rule correct_sleep_data_length)
  moreover have "\<exists>d. e_date (data ! i) = Some (Inr d) \<and>
       (if d \<ge> cutoff_date
        then \<exists>a b. e_asleep (data ! i) = Some a \<and> e_in_bed (data ! i) = Some b \<and>
               out ! i = (data ! i)\<lparr>e_asleep := Some (max 0 (a - b))\<rparr>
        else out ! i = data ! i)" if "i < length data" for i
    using correct_sleep_data_nth [OF assms that] by (rule correct_entry_cases)
  ultimately show ?thesis
    by (simp add: cutoff_date_def)
qed

text \<open>The rows of the specification: dated 2024-11-20 with 8.0 and 1.0 hours,
  dated 2024-11-19 with the same hours, dated 2024-11-21 with 0.5 and 2.0 hours.\<close>

theorem correct_sleep_data_rows_witness:
  "\<exists>out. correct_sleep_data example_summary cutoff_date = Inr out \<and>
     length out = 3 \<and>
     e_asleep (out ! 0) = Some 7 \<and>
     out ! 1 = example_summary ! 1 \<and> e_asleep (out ! 1) = Some 8 \<and>
     e_asleep (out ! 2) = Some 0"
proof -
  obtain out where h: "correct_sleep_data example_summary cutoff_date = Inr out"
    using correct_example_summary by blast
  have len: "length example_summary = 3"
    by (simp add: example_summary_def)
  note r = correct_sleep_data_rows [OF h]
  have n: "length out = 3"
    using r len by simp
  have "e_asleep (out ! 0) = Some 7"
    using r len
    by (auto simp: example_summary_def summary_row_def cutoff_date_ordinal example_ordinals
        dest!: spec [where x = 0])
  moreover have "out ! 1 = example_summary ! 1"
    using r len
    by (auto simp: example_summary_def summary_row_def cutoff_date_ordinal example_ordinals
        dest!: spec [where x = 1])
  moreover have "e_asleep (out ! 2) = Some 0"
    using r len
    by (auto simp: example_summary_def summary_row_def cutoff_date_ordinal example_ordinals
        dest!: spec [where x = 2])
  moreover have "e_asleep (example_summary ! 1) = Some 8"
    by (simp add: example_summary_def summary_row_def)
  ultimately show ?thesis
    using h n by auto
qed

text \<open>
  C8. The correction is not idempotent: for the single row dated 2024-11-20 with 8
  hours asleep and 1 hour in bed, one correction gives 7 hours asleep and a second
  correction of that result subtracts the hour in bed again and gives 6.
\<close>

theorem correction_not_idempotent:
  "\<exists>data once twice.
     correct_sleep_data data cutoff_date = Inr once \<and>
     correct_sleep_data once cutoff_date = Inr twice \<and>
     twice \<noteq> once \<and>
     map e_asleep data = [Some 8] \<and> map e_in_bed data = [Some 1] \<and>
     map e_asleep once = [Some 7] \<and> map e_asleep twice = [Some 6]"
proof -
  let ?d = "[summary_row (ymd2ord 2024 11 20) 8 1]"
  let ?o = "[(summary_row (ymd2ord 2024 11 20) 8 1)\<lparr>e_asleep := Some 7\<rparr>]"
  let ?t = "[(summary_row (ymd2ord 2024 11 20) 8 1)\<lparr>e_asleep := Some 6\<rparr>]"
  have a: "correct_sleep_data ?d cutoff_date = Inr ?o"
    by (simp add: summary_row_def cutoff_date_ordinal example_ordinals correct_entry_def
        entry_date_def)
  have b: "correct_sleep_data ?o cutoff_date = Inr ?t"
    by (simp add: summary_row_def cutoff_date_ordinal example_ordinals correct_entry_def
        entry_date_def)
  have c: "?t \<noteq> ?o"
    by (simp add: summary_row_def)
  have d: "map e_asleep ?d = [Some 8]" "map e_in_bed ?d = [Some 1]"
    "map e_asleep ?o = [Some 7]" "map e_asleep ?t = [Some 6]"
    by (simp_all add: summary_row_def)
  show ?thesis
    by (rule exI [of _ ?d], rule exI [of _ ?o], rule exI [of _ ?t]) (simp only: a b c d simp_thms)
qed


section \<open>The run of the correction script\<close>


lemma map_of_dict_set: "map_of (dict_set k v kvs) = (map_of kvs)(k \<mapsto> v)"
  by (induction kvs) (auto simp: fun_eq_iff)

lemma correct_entry_date:
  "correct_entry c e = Inr e' \<Longrightarrow> entry_date e' = entry_date e"
  by (auto simp: correct_entry_def entry_date_def split: sum.splits option.splits if_splits)

lemma correct_entry_asleep:
  "correct_entry c e = Inr e' \<Longrightarrow> entry_date e = Inr d \<Longrightarrow> d \<ge> c \<Longrightarrow>
     (\<exists>a. e_asleep e = Some a) \<and> (\<exists>a'. e_asleep e' = Some a')"
  by (auto simp: correct_entry_def split: sum.splits option.splits if_splits)

lemma correct_entry_dated:
  "correct_entry c e = Inr e' \<Longrightarrow> \<exists>d. entry_date e = Inr d"
  by (auto simp: correct_entry_def split: sum.splits)

lemma correct_entry_readable:
  "correct_entry cutoff_date e = Inr e' \<Longrightarrow> readable e \<and> readable e'"
  by (auto simp: correct_entry_def readable_def entry_date_def split: sum.splits option.splits if_splits)

lemma correct_sleep_data_readable:
  "correct_sleep_data data cutoff_date = Inr out \<Longrightarrow>
     list_all readable data \<and> list_all readable out \<and> map entry_date out = map entry_date data"
proof (induction data arbitrary: out)
  case Nil
  then show ?case by simp
next
  case (Cons e es)
  then show ?case
    by (auto split: sum.splits dest: correct_entry_readable correct_entry_date)
qed

lemma original_dict_ok:
  assumes "list_all readable es" "list_all readable (map snd acc)"
    "list_all (\<lambda>(d, e). entry_date e = Inr d) acc"
  shows "\<exists>od. original_dict es acc = Inr od \<and> list_all readable (map snd od) \<and>
     list_all (\<lambda>(d, e). entry_date e = Inr d) od \<and>
     (\<forall>e \<in> set es. \<forall>d. entry_date e = Inr d \<longrightarrow> map_of od d \<noteq> None) \<and>
     (\<forall>d. map_of acc d \<noteq> None \<longrightarrow> map_of od d \<noteq> None)"
  using assms
proof (induction es arbitrary: acc)
  case Nil
  then show ?case by simp
next
  case (Cons e es)
  from Cons.prems(1) obtain d where d: "entry_date e = Inr d"
    by (auto simp: readable_def split: sum.splits)
  have 1: "list_all readable (map snd (dict_set d e acc))"
    using Cons.prems(1,2) by (induction acc) (auto)
  have 2: "list_all (\<lambda>(d, e). entry_date e = Inr d) (dict_set d e acc)"
    using Cons.prems(3) d by (induction acc) (auto)
  from Cons.prems(1) have "list_all readable es" by simp
  from Cons.IH [OF this 1 2] obtain od where od:
    "original_dict es (dict_set d e acc) = Inr od" "list_all readable (map snd od)"
    "list_all (\<lambda>(d, e). entry_date e = Inr d) od"
    "\<forall>e \<in> set es. \<forall>d. entry_date e = Inr d \<longrightarrow> map_of od d \<noteq> None"
    "\<forall>d'. map_of (dict_set d e acc) d' \<noteq> None \<longrightarrow> map_of od d' \<noteq> None"
    by blast
  from od(5) have "map_of od d \<noteq> None" "\<forall>d'. map_of acc d' \<noteq> None \<longrightarrow> map_of od d' \<noteq> None"
    by (auto simp: map_of_dict_set)
  with od d show ?case
    by auto
qed

lemma analyze_loop_ok:
  assumes "list_all readable es" "list_all readable (map snd od)"
    "\<forall>e \<in> set es. \<forall>d. entry_date e = Inr d \<longrightarrow> map_of od d \<noteq> None"
    "list_all (\<lambda>(d, e). entry_date e = Inr d) od"
  shows "\<exists>r. analyze_loop od es n t = Inr r"
  using assms
proof (induction es arbitrary: n t)
  case Nil
  then show ?case by simp
next
  case (Cons e es)
  from Cons.prems(1) obtain d where d: "entry_date e = Inr d"
    by (auto simp: readable_def split: sum.splits)
  show ?case
  proof (cases "d \<ge> cutoff_date")
    case False
    with d Cons show ?thesis by simp
  next
    case True
    from Cons.prems(3) d obtain orig where o: "map_of od d = Some orig" by auto
    then have mem: "(d, orig) \<in> set od" by (rule map_of_SomeD)
    with Cons.prems(2,4) have "readable orig" "entry_date orig = Inr d"
      by (auto simp: list_all_iff)
    with True obtain a where a: "e_asleep orig = Some a"
      by (auto simp: readable_def)
    from Cons.prems(1) d True obtain a' where a': "e_asleep e = Some a'"
      by (auto simp: readable_def)
    have "\<exists>r. analyze_loop od es n' t' = Inr r" for n' t'
      using Cons.IH Cons.prems by simp
    with d True o a a' show ?thesis
      by simp
  qed
qed

lemma analyze_corrections_ok:
  assumes "correct_sleep_data data cutoff_date = Inr out"
  shows "\<exists>r. analyze_corrections data out = Inr r"
proof -
  from correct_sleep_data_readable [OF assms]
  have r: "list_all readable data" "list_all readable out"
    and m: "map entry_date out = map entry_date data"
    by simp_all
  from original_dict_ok [of data "[]"] r(1) obtain od where od:
    "original_dict data [] = Inr od" "list_all readable (map snd od)"
    "list_all (\<lambda>(d, e). entry_date e = Inr d) od"
    "\<forall>e \<in> set data. \<forall>d. entry_date e = Inr d \<longrightarrow> map_of od d \<noteq> None"
    by auto
  have "\<forall>e \<in> set out. \<forall>d. entry_date e = Inr d \<longrightarrow> map_of od d \<noteq> None"
  proof (intro ballI allI impI)
    fix e d assume "e \<in> set out" "entry_date e = Inr d"
    then have "Inr d \<in> set (map entry_date out)" by force
    with m have "Inr d \<in> set (map entry_date data)" by simp
    then obtain e0 where "e0 \<in> set data" "entry_date e0 = Inr d" by auto
    with od(4) show "map_of od d \<noteq> None" by blast
  qed
  from analyze_loop_ok [OF r(2) od(2) this od(3)] od(1) show ?thesis
    by (simp add: analyze_corrections_def)
qed


lemma paths_distinct:
  "backup_path \<noteq> corrected_path" "backup_path \<noteq> original_path"
  "corrected_path \<noteq> original_path" "corrected_path \<noteq> backup_path"
  "original_path \<noteq> backup_path" "original_path \<noteq> corrected_path"
  by (simp_all add: backup_path_def corrected_path_def original_path_def)

lemma main_absent:
  "files original_path = None \<Longrightarrow> main files answer = (files, Some FileNotFoundError)"
  by (simp add: main_def load_sleep_data_def)

lemma main_rejected:
  "files original_path = Some data \<Longrightarrow> correct_sleep_data data cutoff_date = Inl x \<Longrightarrow>
     main files answer = (files, Some x)"
  by (simp add: main_def load_sleep_data_def)

lemma main_persist:
  assumes "files original_path = Some data" "correct_sleep_data data cutoff_date = Inr out"
  shows "main files answer =
     (case update_original_file out answer (save_sleep_data out True files) of
        Inl x \<Rightarrow> (save_sleep_data out True files, Some x)
      | Inr files2 \<Rightarrow> (files2, None))"
proof -
  from analyze_corrections_ok [OF assms(2)] obtain r where "analyze_corrections data out = Inr r"
    by blast
  with assms show ?thesis
    by (simp add: main_def load_sleep_data_def Let_def)
qed

lemma save_backup_kept:
  "files backup_path = Some b \<Longrightarrow> save_sleep_data data bk files backup_path = Some b"
  by (simp add: save_sleep_data_def paths_distinct split: option.splits)

lemma save_backup_made:
  "files backup_path = None \<Longrightarrow> files original_path = Some original \<Longrightarrow>
     save_sleep_data data True files backup_path = Some original"
  by (simp add: save_sleep_data_def paths_distinct)

lemma update_backup_same:
  "update_original_file out answer files = Inr files2 \<Longrightarrow> files2 backup_path = files backup_path"
  by (auto simp: update_original_file_def paths_distinct split: option.splits if_splits)

lemma main_backup_kept:
  assumes "files backup_path = Some b"
  shows "fst (main files answer) backup_path = Some b"
proof (cases "files original_path")
  case None
  with assms show ?thesis by (simp add: main_absent)
next
  case (Some data)
  show ?thesis
  proof (cases "correct_sleep_data data cutoff_date")
    case (Inl x)
    with Some assms show ?thesis by (simp add: main_rejected)
  next
    case (Inr out)
    have "save_sleep_data out True files backup_path = Some b"
      using assms by (rule save_backup_kept)
    then show ?thesis
      by (auto simp: main_persist [of files data out answer, OF Some Inr] split: sum.splits dest: update_backup_same)
  qed
qed

lemma main_backup_made:
  assumes "files backup_path = None" "files original_path = Some original"
    "correct_sleep_data original cutoff_date = Inr corrected"
  shows "fst (main files answer) backup_path = Some original"
proof -
  have "save_sleep_data corrected True files backup_path = Some original"
    using assms(1,2) by (rule save_backup_made)
  then show ?thesis
    by (auto simp: main_persist [of files original corrected answer, OF assms(2,3)] split: sum.splits dest: update_backup_same)
qed

lemma main_twice_backup:
  "fst (main (fst (main files answer)) answer2) backup_path = fst (main files answer) backup_path"
proof (cases "fst (main files answer) backup_path")
  case (Some b)
  then show ?thesis by (simp add: main_backup_kept)
next
  case None
  have unchanged: "fst (main files a) = files" for a
  proof (cases "files original_path")
    case None
    then show ?thesis by (simp add: main_absent)
  next
    case (Some data)
    show ?thesis
    proof (cases "correct_sleep_data data cutoff_date")
      case (Inl x)
      with Some show ?thesis by (simp add: main_rejected)
    next
      case (Inr out)
      show ?thesis
      proof (cases "files backup_path")
        case None
        from main_backup_made [of files data out answer, OF None Some Inr] \<open>fst (main files answer) backup_path = None\<close>
        show ?thesis by simp
      next
        case (Some b)
        from main_backup_kept [of files b answer, OF Some] \<open>fst (main files answer) backup_path = None\<close>
        show ?thesis by simp
      qed
    qed
  qed
  show ?thesis
    by (simp add: unchanged)
qed

text \<open>
  C6. The backup file is written only when it does not exist yet: \<open>save_sleep_data\<close>
  and a whole run leave an existing backup as it is; without a backup and with the
  original present the saved backup is the original. A run that reaches the persist
  phase from a directory without backup leaves the original of that run as backup, and
  a second run leaves the backup of the first run as it is, whatever the answers to the
  confirmation prompt.
\<close>

theorem backup_once:
  "(files backup_path = Some b \<longrightarrow>
      save_sleep_data data bk files backup_path = Some b \<and>
      fst (main files answer) backup_path = Some b) \<and>
   (files backup_path = None \<and> files original_path = Some original \<longrightarrow>
      save_sleep_data data True files backup_path = Some original) \<and>
   (files backup_path = None \<and> files original_path = Some original \<and>
    correct_sleep_data original cutoff_date = Inr corrected \<longrightarrow>
      fst (main files answer) backup_path = Some original \<and>
      fst (main (fst (main files answer)) answer2) backup_path = Some original) \<and>
   fst (main (fst (main files answer)) answer2) backup_path = fst (main files answer) backup_path"
  by (simp add: save_backup_kept save_backup_made main_backup_kept main_backup_made main_twice_backup)

lemma example_files_simps:
  "example_files original_path = Some example_summary" "example_files backup_path = None"
  "no_files p = None"
  by (simp_all add: example_files_def no_files_def paths_distinct)

text \<open>Two runs on the example summary, both answered \<open>y\<close>: the backup holds the
  summary as it was before the first run, although the original has been replaced.\<close>

theorem backup_once_witness:
  "example_files backup_path = None \<and>
   fst (main example_files (Some ''y'')) backup_path = Some example_summary \<and>
   fst (main (fst (main example_files (Some ''y''))) (Some ''y'')) backup_path = Some example_summary \<and>
   fst (main (fst (main example_files (Some ''y''))) (Some ''y'')) original_path \<noteq> Some example_summary"
proof -
  obtain c where c: "correct_sleep_data example_summary cutoff_date = Inr c"
    using correct_example_summary by blast
  have c': "c = [(summary_row (ymd2ord 2024 11 20) 8 1)\<lparr>e_asleep := Some 7\<rparr>,
          summary_row (ymd2ord 2024 11 19) 8 1,
          (summary_row (ymd2ord 2024 11 21) (1 / 2) 2)\<lparr>e_asleep := Some 0\<rparr>]"
    using c correct_example_summary by simp
  note b = backup_once [of example_files _ _ _ "Some ''y''" example_summary c "Some ''y''"]
  have 1: "fst (main example_files (Some ''y'')) backup_path = Some example_summary"
    "fst (main (fst (main example_files (Some ''y''))) (Some ''y'')) backup_path = Some example_summary"
    using b c by (simp_all add: example_files_simps)
  have m1: "main example_files (Some ''y'') =
     ((save_sleep_data c True example_files)(original_path \<mapsto> c), None)"
    by (simp add: main_persist [of example_files example_summary c] example_files_simps c
        update_original_file_def)
  have c2: "correct_sleep_data c cutoff_date =
       Inr [(summary_row (ymd2ord 2024 11 20) 8 1)\<lparr>e_asleep := Some 6\<rparr>,
          summary_row (ymd2ord 2024 11 19) 8 1,
          (summary_row (ymd2ord 2024 11 21) (1 / 2) 2)\<lparr>e_asleep := Some 0\<rparr>]"
    by (simp add: c' summary_row_def cutoff_date_ordinal example_ordinals
      correct_entry_def entry_date_def)
  have "fst (main (fst (main example_files (Some ''y''))) (Some ''y'')) original_path \<noteq> Some example_summary"
    by (simp add: m1 main_persist [OF _ c2] update_original_file_def example_summary_def summary_row_def)
  with 1 show ?thesis
    by (simp add: example_files_simps)
qed











section \<open>Dictionaries\<close>

lemma map_of_dict_modify:
  "map_of (dict_modify k d f kvs) =
     (map_of kvs)(k \<mapsto> f (case map_of kvs k of None \<Rightarrow> d | Some v \<Rightarrow> v))"
  by (induction kvs) (auto simp: fun_eq_iff)

lemma keys_dict_modify:
  "map fst (dict_modify k d f kvs) =
     (if k \<in> fst ` set kvs then map fst kvs else map fst kvs @ [k])"
proof (induction kvs)
  case Nil
  then show ?case by simp
next
  case (Cons kv kvs)
  obtain k' v where kv: "kv = (k', v)" by (cases kv)
  show ?case
  proof (cases "k' = k")
    case True
    with kv show ?thesis by simp
  next
    case False
    with kv Cons.IH show ?thesis by simp
  qed
qed

lemma distinct_dict_modify:
  "distinct (map fst kvs) \<Longrightarrow> distinct (map fst (dict_modify k d f kvs))"
  by (simp add: keys_dict_modify)

lemma dict_modify_twice:
  "dict_modify k d g (dict_modify k d f kvs) = dict_modify k d (\<lambda>v. g (f v)) kvs"
  by (induction kvs) auto

lemma fold_dict_modify_keys:
  "fst ` set (fold (\<lambda>r. dict_modify (key r) d (upd r)) recs kvs) =
     fst ` set kvs \<union> key ` set recs"
proof (induction recs arbitrary: kvs)
  case Nil
  then show ?case by simp
next
  case (Cons r rs)
  have "fst ` set (dict_modify (key r) d (upd r) kvs) = insert (key r) (fst ` set kvs)"
    using arg_cong [OF keys_dict_modify [of "key r" d "upd r" kvs], of set]
    by (auto split: if_splits)
  then show ?case
    by (simp add: Cons.IH)
qed

lemma fold_dict_modify_distinct:
  "distinct (map fst kvs) \<Longrightarrow>
     distinct (map fst (fold (\<lambda>r. dict_modify (key r) d (upd r)) recs kvs))"
  by (induction recs arbitrary: kvs) (auto simp: distinct_dict_modify)

lemma fold_dict_modify_lookup:
  "map_of (fold (\<lambda>r. dict_modify (key r) d (upd r)) recs kvs) k =
     (if filter (\<lambda>r. key r = k) recs = [] then map_of kvs k
      else Some (fold upd (filter (\<lambda>r. key r = k) recs)
                   (case map_of kvs k of None \<Rightarrow> d | Some v \<Rightarrow> v)))"
proof (induction recs arbitrary: kvs)
  case Nil
  then show ?case by simp
next
  case (Cons r rs)
  show ?case
    by (simp add: Cons.IH map_of_dict_modify)
qed

lemma sort_key_distinct_keys:
  "distinct (map f (sort_key f xs)) = distinct (map f xs)"
  by (simp add: distinct_map)


section \<open>The daily step aggregator\<close>

lemma days_loop_fold:
  "days_loop recs days =
     fold (\<lambda>r. dict_modify (st_date r) day_default
             (\<lambda>d. d\<lparr>d_total := d_total d + st_value r,
                     d_sources := insert (st_source r) (d_sources d)\<rparr>)) recs days"
  by (induction recs arbitrary: days) (simp_all add: Let_def dict_modify_twice)

lemma fold_day:
  "fold (\<lambda>r d. d\<lparr>d_total := d_total d + st_value r,
                   d_sources := insert (st_source r) (d_sources d)\<rparr>) rs a =
     \<lparr>d_total = d_total a + sum_list (map st_value rs),
      d_sources = d_sources a \<union> st_source ` set rs\<rparr>"
  by (induction rs arbitrary: a) (auto simp: algebra_simps)

lemma days_loop_keys:
  "fst ` set (days_loop recs []) = st_date ` set recs"
  "distinct (map fst (days_loop recs []))"
  by (simp_all add: days_loop_fold fold_dict_modify_keys fold_dict_modify_distinct)

lemma days_loop_item:
  assumes "(k, v) \<in> set (days_loop recs [])"
  shows "v = \<lparr>d_total = sum_list (map st_value (filter (\<lambda>r. st_date r = k) recs)),
              d_sources = st_source ` {r \<in> set recs. st_date r = k}\<rparr>"
proof -
  have "map_of (days_loop recs []) k = Some v"
    using assms days_loop_keys(2) by simp
  then show ?thesis
    by (simp add: days_loop_fold fold_dict_modify_lookup fold_day day_default_def
        split: if_splits) 
qed

text \<open>
  C4. The rows returned by the daily step aggregator are strictly ascending by date
  (so no date has two rows), their dates are exactly the dates of the input records (so
  a date has a row if and only if a record contributes to it), and each row carries the
  sum of the values and the set of the source names of the records of its date.
\<close>

theorem step_aggregate_by_day_rows:
  "sorted_wrt (<) (map sd_date (step_aggregate_by_day recs)) \<and>
   set (map sd_date (step_aggregate_by_day recs)) = st_date ` set recs \<and>
   (\<forall>row \<in> set (step_aggregate_by_day recs).
      steps row = sum_list (map st_value (filter (\<lambda>r. st_date r = sd_date row) recs)) \<and>
      sd_sources row = st_source ` {r \<in> set recs. st_date r = sd_date row})"
proof -
  let ?items = "days_loop recs []"
  have m: "map sd_date (map step_row_of ?items) = map fst ?items"
    by (simp add: step_row_of_def)
  have "distinct (map sd_date (step_aggregate_by_day recs))"
    unfolding step_aggregate_by_day_def sort_key_distinct_keys m by (rule days_loop_keys)
  moreover have "sorted (map sd_date (step_aggregate_by_day recs))"
    by (simp add: step_aggregate_by_day_def)
  ultimately have 1: "sorted_wrt (<) (map sd_date (step_aggregate_by_day recs))"
    by (simp add: strict_sorted_iff)
  have "set (map sd_date (step_aggregate_by_day recs)) = set (map sd_date (map step_row_of ?items))"
    unfolding step_aggregate_by_day_def set_map set_sort ..
  then have 2: "set (map sd_date (step_aggregate_by_day recs)) = st_date ` set recs"
    unfolding m by (simp add: days_loop_keys)
  have 3: "steps row = sum_list (map st_value (filter (\<lambda>r. st_date r = sd_date row) recs)) \<and>
      sd_sources row = st_source ` {r \<in> set recs. st_date r = sd_date row}"
    if "row \<in> set (step_aggregate_by_day recs)" for row
  proof -
    from that obtain k v where kv: "(k, v) \<in> set ?items" "row = step_row_of (k, v)"
      by (auto simp: step_aggregate_by_day_def)
    from days_loop_item [OF kv(1)] kv(2) show ?thesis
      by (simp add: step_row_of_def)
  qed
  from 1 2 3 show ?thesis by blast
qed

lemma example_steps_extracted:
  "get_step_count_records example_raw_steps = (Inr example_steps, [Found 2])"
  by (simp add: get_step_count_records_def example_raw_steps_def example_steps_def step_try_def
      py_int_def new_year_at_def)

lemma example_steps_rows:
  "step_aggregate_by_day example_steps =
     [\<lparr>sd_date = ymd2ord 2024 1 1, steps = 7500, sd_sources = {''Watch'', ''Phone''}\<rparr>]"
  by (simp add: step_aggregate_by_day_def example_steps_def day_default_def step_row_of_def Let_def)

text \<open>The scenario of the specification: the two elements of 2024-01-01 give the
  single row with 7500 steps and both sources.\<close>

theorem step_aggregate_by_day_rows_witness:
  "get_step_count_records example_raw_steps = (Inr example_steps, [Found 2]) \<and>
   step_aggregate_by_day example_steps =
     [\<lparr>sd_date = ymd2ord 2024 1 1, steps = 7500, sd_sources = {''Phone'', ''Watch''}\<rparr>] \<and>
   steps (hd (step_aggregate_by_day example_steps)) = 3000 + 4500"
proof -
  have s: "{''Watch'', ''Phone''} = {''Phone'', ''Watch''}"
    by (rule insert_commute)
  have "steps (hd (step_aggregate_by_day example_steps)) =
     sum_list (map st_value (filter (\<lambda>r. st_date r = ymd2ord 2024 1 1) example_steps))"
    using step_aggregate_by_day_rows [of example_steps] by (simp add: example_steps_rows)
  also have "\<dots> = 3000 + 4500"
    by (simp add: example_steps_def)
  finally show ?thesis
    by (simp only: example_steps_extracted example_steps_rows s simp_thms)
qed


section \<open>The daily resting heart rate aggregator\<close>


subsection \<open>Means and rounding to tenths\<close>

lemma sum_list_upper: "(\<forall>x \<in> set xs. x \<le> (m::rat)) \<Longrightarrow> sum_list xs \<le> of_nat (length xs) * m"
  by (induction xs) (auto simp: algebra_simps)

lemma sum_list_lower: "(\<forall>x \<in> set xs. (m::rat) \<le> x) \<Longrightarrow> of_nat (length xs) * m \<le> sum_list xs"
  by (induction xs) (auto simp: algebra_simps)

lemma mean_bounds:
  assumes "vs \<noteq> []"
  shows "Min (set vs) \<le> mean vs" "mean vs \<le> Max (set vs)"
proof -
  have n: "0 < (of_nat (length vs) :: rat)"
    using assms by simp
  have "of_nat (length vs) * Min (set vs) \<le> sum_list vs"
    by (rule sum_list_lower) simp
  then show "Min (set vs) \<le> mean vs"
    using n by (simp add: mean_def pos_le_divide_eq mult.commute)
  have "sum_list vs \<le> of_nat (length vs) * Max (set vs)"
    by (rule sum_list_upper) simp
  then show "mean vs \<le> Max (set vs)"
    using n by (simp add: mean_def pos_divide_le_eq mult.commute)
qed

lemma round_half_even_near:
  "\<bar>of_int (round_half_even y) - y\<bar> \<le> 1 / 2"
proof -
  have "of_int \<lfloor>y\<rfloor> \<le> y" "y < of_int \<lfloor>y\<rfloor> + 1"
    by linarith+
  then show ?thesis
    by (auto simp: round_half_even_def Let_def)
qed

lemma round_half_even_ge: "of_int k \<le> y \<Longrightarrow> k \<le> round_half_even y"
proof -
  assume "of_int k \<le> y"
  then have "k \<le> \<lfloor>y\<rfloor>" by (simp add: le_floor_iff)
  then show ?thesis
    by (auto simp: round_half_even_def Let_def)
qed

lemma round_half_even_le: "y \<le> of_int k \<Longrightarrow> round_half_even y \<le> k"
proof -
  assume a: "y \<le> of_int k"
  then have f: "\<lfloor>y\<rfloor> \<le> k" by (simp add: floor_le_iff)
  show ?thesis
  proof (cases "y = of_int \<lfloor>y\<rfloor>")
    case True
    then have "y - of_int \<lfloor>y\<rfloor> = 0" by simp
    then show ?thesis using f by (simp add: round_half_even_def Let_def)
  next
    case False
    then have "of_int \<lfloor>y\<rfloor> < y"
      using of_int_floor_le [of y] by linarith
    with a have "of_int \<lfloor>y\<rfloor> < (of_int k :: rat)" by linarith
    then have "\<lfloor>y\<rfloor> + 1 \<le> k" by simp
    then show ?thesis by (auto simp: round_half_even_def Let_def)
  qed
qed

subsection \<open>Rounding to the nearest double\<close>

lemma float_exponent_below_range:
  "- 1074 \<le> float_exponent_below n x \<and> float_exponent_below n x \<le> int n - 1074"
  by (induction n) auto

lemma float_exponent_below_lower:
  "float_exponent_below n x \<noteq> - 1074 \<Longrightarrow> 2 powi (52 + float_exponent_below n x) \<le> x"
proof (induction n)
  case 0
  then show ?case by simp
next
  case (Suc n)
  show ?case
  proof (cases "2 powi (int n - 1021) \<le> x")
    case True
    have "52 + (int n - 1073) = int n - 1021" by simp
    with True show ?thesis by simp
  next
    case False
    with Suc show ?thesis by simp
  qed
qed

lemma float_exponent_below_upper:
  "float_exponent_below n x < int n - 1074 \<Longrightarrow> x < 2 powi (53 + float_exponent_below n x)"
proof (induction n)
  case 0
  then show ?case by simp
next
  case (Suc n)
  show ?case
  proof (cases "2 powi (int n - 1021) \<le> x")
    case True
    with Suc.prems show ?thesis by simp
  next
    case False
    then have e: "float_exponent_below (Suc n) x = float_exponent_below n x" by simp
    show ?thesis
    proof (cases "float_exponent_below n x < int n - 1074")
      case True
      with Suc.IH e show ?thesis by simp
    next
      case False
      with float_exponent_below_range [of n x]
      have "float_exponent_below n x = int n - 1074" by simp
      then have "int n - 1021 = 53 + float_exponent_below n x" by simp
      then have "(2::rat) powi (int n - 1021) = 2 powi (53 + float_exponent_below n x)"
        by (rule arg_cong)
      with \<open>\<not> 2 powi (int n - 1021) \<le> x\<close> show ?thesis
        unfolding e by simp
    qed
  qed
qed

lemma float_exponent_below_mono:
  "x \<le> y \<Longrightarrow> float_exponent_below n x \<le> float_exponent_below n y"
proof (induction n)
  case 0
  then show ?case by simp
next
  case (Suc n)
  have "float_exponent_below n x \<le> int n - 1073"
    using float_exponent_below_range [of n x] by simp
  with Suc show ?case by auto
qed

lemma pow2_mono: "a \<le> b \<Longrightarrow> (2::rat) powi a \<le> 2 powi b"
  by (rule power_int_increasing) simp_all

lemma float_exponent_below_unique:
  assumes "- 1074 \<le> e" "e \<le> int n - 1074" "e = - 1074 \<or> 2 powi (52 + e) \<le> x"
    "e = int n - 1074 \<or> x < 2 powi (53 + e)"
  shows "float_exponent_below n x = e"
proof -
  let ?e = "float_exponent_below n x"
  note r = float_exponent_below_range [of n x]
  have "\<not> e < ?e"
  proof
    assume l: "e < ?e"
    with assms(1) have "?e \<noteq> - 1074" by simp
    then have "2 powi (52 + ?e) \<le> x" by (rule float_exponent_below_lower)
    moreover from l r assms(4) have "x < 2 powi (53 + e)" by auto
    moreover have "(2::rat) powi (53 + e) \<le> 2 powi (52 + ?e)"
      using l by (intro pow2_mono) simp
    ultimately show False by simp
  qed
  moreover have "\<not> ?e < e"
  proof
    assume l: "?e < e"
    with assms(2) have "?e < int n - 1074" by simp
    then have "x < 2 powi (53 + ?e)" by (rule float_exponent_below_upper)
    moreover have "(2::rat) powi (53 + ?e) \<le> 2 powi (52 + e)"
      using l by (intro pow2_mono) simp
    ultimately have "\<not> 2 powi (52 + e) \<le> x" by simp
    with assms(3) have "e = - 1074" by simp
    with l r show False by simp
  qed
  ultimately show ?thesis by simp
qed

lemma round_half_even_mono: "x \<le> y \<Longrightarrow> round_half_even x \<le> round_half_even y"
proof -
  assume xy: "x \<le> y"
  then have f: "\<lfloor>x\<rfloor> \<le> \<lfloor>y\<rfloor>" by (rule floor_mono)
  show ?thesis
  proof (cases "\<lfloor>x\<rfloor> = \<lfloor>y\<rfloor>")
    case True
    with xy have "x - of_int \<lfloor>x\<rfloor> \<le> y - of_int \<lfloor>y\<rfloor>" by simp
    with True show ?thesis
      by (auto simp: round_half_even_def Let_def)
  next
    case False
    with f have "\<lfloor>x\<rfloor> + 1 \<le> \<lfloor>y\<rfloor>" by simp
    moreover have "round_half_even x \<le> \<lfloor>x\<rfloor> + 1"
      by (auto simp: round_half_even_def Let_def)
    moreover have "\<lfloor>y\<rfloor> \<le> round_half_even y"
      by (auto simp: round_half_even_def Let_def)
    ultimately show ?thesis by linarith
  qed
qed

lemma round_half_even_of_int [simp]: "round_half_even (of_int k) = k"
  by (simp add: round_half_even_def)

lemma round_half_even_numeral [simp]: "round_half_even (numeral n) = numeral n"
  by (metis of_int_numeral round_half_even_of_int)

lemma round_magnitude_mono:
  assumes "x \<le> y"
  shows "round_magnitude x \<le> round_magnitude y"
proof -
  let ?ex = "float_exponent x" and ?ey = "float_exponent y"
  have le: "?ex \<le> ?ey"
    unfolding float_exponent_def using assms by (rule float_exponent_below_mono)
  have p: "0 < (2::rat) powi e" for e by simp
  show ?thesis
  proof (cases "?ex = ?ey")
    case True
    have "x / 2 powi ?ey \<le> y / 2 powi ?ey"
      using assms p [of ?ey] by (simp add: divide_right_mono)
    then have "round_half_even (x / 2 powi ?ey) \<le> round_half_even (y / 2 powi ?ey)"
      by (rule round_half_even_mono)
    then have "of_int (round_half_even (x / 2 powi ?ey)) * 2 powi ?ey
        \<le> (of_int (round_half_even (y / 2 powi ?ey)) :: rat) * 2 powi ?ey"
      using p [of ?ey] by (simp add: mult_right_mono)
    with True show ?thesis
      by (simp add: round_magnitude_def Let_def)
  next
    case False
    with le have l: "?ex < ?ey" by simp
    note ry = float_exponent_below_range [of 2045 y]
    from l ry have "float_exponent_below 2045 x < int 2045 - 1074"
      by (simp add: float_exponent_def)
    then have ux: "x < 2 powi (53 + ?ex)"
      unfolding float_exponent_def by (rule float_exponent_below_upper)
    have "float_exponent_below 2045 y \<noteq> - 1074"
      using l float_exponent_below_range [of 2045 x] by (simp add: float_exponent_def)
    then have ly: "2 powi (52 + ?ey) \<le> y"
      unfolding float_exponent_def by (rule float_exponent_below_lower)
    have "x / 2 powi ?ex \<le> 2 powi 53"
      using ux p [of ?ex] by (simp add: power_int_add pos_divide_le_eq)
    then have "x / 2 powi ?ex \<le> of_int (2 ^ 53)" by simp
    then have "round_half_even (x / 2 powi ?ex) \<le> 2 ^ 53"
      by (rule round_half_even_le)
    then have "(of_int (round_half_even (x / 2 powi ?ex)) :: rat) \<le> 2 powi 53"
      by (metis of_int_le_iff of_int_numeral of_int_power power_int_numeral)
    then have "of_int (round_half_even (x / 2 powi ?ex)) * 2 powi ?ex \<le> (2::rat) powi 53 * 2 powi ?ex"
      using p [of ?ex] by (simp add: mult_right_mono)
    also have "\<dots> = 2 powi (53 + ?ex)"
      by (simp add: power_int_add)
    also have "\<dots> \<le> 2 powi (52 + ?ey)"
      using l by (intro pow2_mono) simp
    also have "\<dots> = 2 powi 52 * 2 powi ?ey"
      by (simp add: power_int_add)
    also have "\<dots> \<le> of_int (round_half_even (y / 2 powi ?ey)) * 2 powi ?ey"
    proof -
      have "2 powi 52 \<le> y / 2 powi ?ey"
        using ly p [of ?ey] by (simp add: power_int_add pos_le_divide_eq)
      then have "of_int (2 ^ 52) \<le> y / 2 powi ?ey" by simp
      then have "2 ^ 52 \<le> round_half_even (y / 2 powi ?ey)"
        by (rule round_half_even_ge)
      then have "(2::rat) powi 52 \<le> of_int (round_half_even (y / 2 powi ?ey))"
        by (metis of_int_le_iff of_int_numeral of_int_power power_int_numeral)
      then show ?thesis
        using p [of ?ey] by (simp add: mult_right_mono)
    qed
    finally show ?thesis
      by (simp add: round_magnitude_def Let_def)
  qed
qed

lemma round_magnitude_nonneg: "0 \<le> x \<Longrightarrow> 0 \<le> round_magnitude x"
proof -
  assume "0 \<le> x"
  then have "of_int 0 \<le> x / 2 powi float_exponent x" by simp
  then have "0 \<le> round_half_even (x / 2 powi float_exponent x)"
    by (rule round_half_even_ge)
  then show ?thesis
    by (simp add: round_magnitude_def Let_def)
qed

lemma fl64_mono: "x \<le> y \<Longrightarrow> fl64 x \<le> fl64 y"
proof -
  assume xy: "x \<le> y"
  consider "y < 0" | "x < 0" "0 \<le> y" | "0 \<le> x" by linarith
  then show ?thesis
  proof cases
    case 1
    with xy have "x < 0" "- y \<le> - x" by simp_all
    with 1 round_magnitude_mono [of "- y" "- x"] show ?thesis
      by (simp add: fl64_def)
  next
    case 2
    then have "0 \<le> round_magnitude (- x)" "0 \<le> round_magnitude y"
      by (simp_all add: round_magnitude_nonneg)
    with 2 show ?thesis by (simp add: fl64_def)
  next
    case 3
    with xy have "0 \<le> y" by simp
    with 3 xy round_magnitude_mono [of x y] show ?thesis
      by (simp add: fl64_def)
  qed
qed

lemma round_magnitude_at:
  assumes "- 1074 \<le> e" "e \<le> 971" "e = - 1074 \<or> 2 powi (52 + e) \<le> x"
    "e = 971 \<or> x < 2 powi (53 + e)"
  shows "round_magnitude x = of_int (round_half_even (x / 2 powi e)) * 2 powi e"
proof -
  have "float_exponent_below 2045 x = e"
    using assms by (intro float_exponent_below_unique) simp_all
  then show ?thesis
    by (simp add: round_magnitude_def float_exponent_def)
qed

lemma round_half_even_nearest:
  "\<bar>y - of_int k\<bar> < 1 / 2 \<Longrightarrow> round_half_even y = k"
proof -
  assume a: "\<bar>y - of_int k\<bar> < 1 / 2"
  from a have "of_int k - 1 \<le> y" "y < of_int k + 1"
    by linarith+
  then have "of_int (k - 1) \<le> y" "y < of_int (k + 1)"
    by simp_all
  then have "k - 1 \<le> \<lfloor>y\<rfloor>" "\<lfloor>y\<rfloor> < k + 1"
    by (simp_all only: le_floor_iff floor_less_iff)
  then have "\<lfloor>y\<rfloor> = k \<or> \<lfloor>y\<rfloor> = k - 1"
    by linarith
  then show ?thesis
  proof
    assume f: "\<lfloor>y\<rfloor> = k"
    with a have "y - of_int \<lfloor>y\<rfloor> < 1 / 2" by linarith
    with f show ?thesis by (simp add: round_half_even_def Let_def)
  next
    assume f: "\<lfloor>y\<rfloor> = k - 1"
    with a have "y - of_int \<lfloor>y\<rfloor> > 1 / 2" by (simp only: of_int_diff of_int_1)
    with f show ?thesis by (simp add: round_half_even_def Let_def)
  qed
qed

subsection \<open>The buckets\<close>

lemma rhr_days_loop_fold:
  "rhr_days_loop recs days =
     fold (\<lambda>r. dict_modify (hr_date r) rhr_day_default
             (\<lambda>d. d\<lparr>h_values := h_values d @ [hr_value r],
                     h_sources := insert (hr_source r) (h_sources d)\<rparr>)) recs days"
  by (induction recs arbitrary: days) (simp_all add: Let_def dict_modify_twice)

lemma fold_rhr_day:
  "fold (\<lambda>r d. d\<lparr>h_values := h_values d @ [hr_value r],
                   h_sources := insert (hr_source r) (h_sources d)\<rparr>) rs a =
     \<lparr>h_values = h_values a @ map hr_value rs,
      h_sources = h_sources a \<union> hr_source ` set rs\<rparr>"
  by (induction rs arbitrary: a) auto

lemma rhr_days_loop_keys:
  "fst ` set (rhr_days_loop recs []) = hr_date ` set recs"
  "distinct (map fst (rhr_days_loop recs []))"
  by (simp_all add: rhr_days_loop_fold fold_dict_modify_keys fold_dict_modify_distinct)

lemma rhr_days_loop_item:
  assumes "(k, v) \<in> set (rhr_days_loop recs [])"
  shows "v = \<lparr>h_values = map hr_value (filter (\<lambda>r. hr_date r = k) recs),
              h_sources = hr_source ` {r \<in> set recs. hr_date r = k}\<rparr>"
proof -
  have "map_of (rhr_days_loop recs []) k = Some v"
    using assms rhr_days_loop_keys(2) by simp
  then show ?thesis
    by (simp add: rhr_days_loop_fold fold_dict_modify_lookup fold_rhr_day rhr_day_default_def
        split: if_splits)
qed

lemma rhr_rows_dates:
  "map hd_date (rhr_rows items) = map fst (filter (\<lambda>item. h_values (snd item) \<noteq> []) items)"
  by (induction items rule: rhr_rows.induct) (auto split: list.splits)


subsection \<open>The rows\<close>

lemma fl64_fixed_examples:
  "fl64 58 = 58" "fl64 60 = 60" "fl64 61 = 61" "fl64 (119 / 2) = 119 / 2"
  "fl64 float_60_04 = float_60_04"
  by (simp_all add: fl64_def float_60_04_def round_magnitude_at [where e = "- 47"])

lemma fl64_rounded_examples:
  "fl64 (1203 / 20) = float_60_15" "fl64 (601 / 10) = float_60_1"
  by (simp_all add: fl64_def float_60_15_def float_60_1_def round_magnitude_at [where e = "- 47"]
      round_half_even_nearest [where k = 8465359924572979]
      round_half_even_nearest [where k = 8458323050155213])

lemma round1_examples:
  "round1 float_60_04 = 60" "round1 float_60_15 = float_60_1" "round1 (119 / 2) = 119 / 2"
  by (simp_all add: round1_def float_60_04_def float_60_15_def fl64_fixed_examples
      fl64_rounded_examples round_half_even_nearest [where k = 600]
      round_half_even_nearest [where k = 601] round_half_even_nearest [where k = 595])


lemma py_min_finite: "py_min (Finite v) (map Finite vs) = Finite (Min (set (v # vs)))"
proof -
  have "fold (\<lambda>item current. if py_less item current then item else current) (map Finite vs)
      (Finite v) = Finite (fold min vs v)"
    by (induction vs arbitrary: v) (simp_all add: min_def not_less)
  then show ?thesis
    by (simp only: py_min_def Min.set_eq_fold)
qed

lemma py_max_finite: "py_max (Finite v) (map Finite vs) = Finite (Max (set (v # vs)))"
proof -
  have "fold (\<lambda>item current. if py_less current item then item else current) (map Finite vs)
      (Finite v) = Finite (fold max vs v)"
    by (induction vs arbitrary: v) (simp_all add: max_def not_less)
  then show ?thesis
    by (simp only: py_max_def Max.set_eq_fold)
qed

lemma map_filter_finite: "List.map_filter finite_of (map Finite vs) = vs"
  by (induction vs) (simp_all add: map_filter_simps)

lemma statistics_mean_finite: "statistics_mean (map Finite vs) = Finite (fl64 (mean vs))"
proof -
  have "filter (\<lambda>v. finite_of v = None) (map Finite vs) = []"
    by (induction vs) simp_all
  then show ?thesis
    by (simp add: statistics_mean_def map_filter_finite mean_def)
qed

lemma fl64_above: "is_double lo \<Longrightarrow> lo \<le> x \<Longrightarrow> lo \<le> fl64 x"
  using fl64_mono [of lo x] by (simp add: is_double_def)

lemma fl64_below: "is_double hi \<Longrightarrow> x \<le> hi \<Longrightarrow> fl64 x \<le> hi"
  using fl64_mono [of x hi] by (simp add: is_double_def)

lemma round1_lower: "lo \<le> x \<Longrightarrow> fl64 (of_int \<lfloor>lo * 10\<rfloor> / 10) \<le> round1 x"
proof -
  assume "lo \<le> x"
  then have "of_int \<lfloor>lo * 10\<rfloor> \<le> x * 10"
    using of_int_floor_le [of "lo * 10"] by linarith
  then have "\<lfloor>lo * 10\<rfloor> \<le> round_half_even (x * 10)"
    by (rule round_half_even_ge)
  then have "(of_int \<lfloor>lo * 10\<rfloor> :: rat) / 10 \<le> of_int (round_half_even (x * 10)) / 10"
    by (simp add: divide_right_mono)
  then show ?thesis
    unfolding round1_def by (rule fl64_mono)
qed

lemma round1_upper: "x \<le> hi \<Longrightarrow> round1 x \<le> fl64 (of_int \<lceil>hi * 10\<rceil> / 10)"
proof -
  assume "x \<le> hi"
  then have "x * 10 \<le> of_int \<lceil>hi * 10\<rceil>"
    using le_of_int_ceiling [of "hi * 10"] by linarith
  then have "round_half_even (x * 10) \<le> \<lceil>hi * 10\<rceil>"
    by (rule round_half_even_le)
  then have "(of_int (round_half_even (x * 10)) :: rat) / 10 \<le> of_int \<lceil>hi * 10\<rceil> / 10"
    by (simp add: divide_right_mono)
  then show ?thesis
    unfolding round1_def by (rule fl64_mono)
qed

lemma tenth_floor: "x * 10 \<in> \<int> \<Longrightarrow> of_int \<lfloor>x * 10\<rfloor> / 10 = (x::rat)"
  by (auto elim!: Ints_cases)

lemma tenth_ceiling: "x * 10 \<in> \<int> \<Longrightarrow> of_int \<lceil>x * 10\<rceil> / 10 = (x::rat)"
  by (auto elim!: Ints_cases)

lemma rhr_rows_map:
  "rhr_rows items =
     map (\<lambda>item. \<lparr>hd_date = fst item,
                    resting_hr = py_round1 (statistics_mean (h_values (snd item))),
                    min_hr = py_min (hd (h_values (snd item))) (tl (h_values (snd item))),
                    max_hr = py_max (hd (h_values (snd item))) (tl (h_values (snd item))),
                    readings = length (h_values (snd item)),
                    hd_sources = h_sources (snd item)\<rparr>)
       (filter (\<lambda>item. h_values (snd item) \<noteq> []) items)"
proof (induction items rule: rhr_rows.induct)
  case 1
  then show ?case by simp
next
  case (2 date data items)
  then show ?case
    by (cases "h_values data") simp_all
qed

lemma rhr_aggregate_member:
  assumes "row \<in> set (rhr_aggregate_by_day recs)"
  shows "bucket_values recs (hd_date row) \<noteq> [] \<and>
     row = \<lparr>hd_date = hd_date row,
            resting_hr = py_round1 (statistics_mean (bucket_values recs (hd_date row))),
            min_hr = py_min (hd (bucket_values recs (hd_date row)))
                       (tl (bucket_values recs (hd_date row))),
            max_hr = py_max (hd (bucket_values recs (hd_date row)))
                       (tl (bucket_values recs (hd_date row))),
            readings = length (bucket_values recs (hd_date row)),
            hd_sources = hr_source ` {r \<in> set recs. hr_date r = hd_date row}\<rparr>"
proof -
  from assms obtain k data where kd: "(k, data) \<in> set (rhr_days_loop recs [])"
    "h_values data \<noteq> []"
    "row = \<lparr>hd_date = k, resting_hr = py_round1 (statistics_mean (h_values data)),
            min_hr = py_min (hd (h_values data)) (tl (h_values data)),
            max_hr = py_max (hd (h_values data)) (tl (h_values data)),
            readings = length (h_values data), hd_sources = h_sources data\<rparr>"
    by (auto simp: rhr_aggregate_by_day_def rhr_rows_map)
  from rhr_days_loop_item [OF kd(1)] kd(2,3) show ?thesis
    by (simp add: bucket_values_def)
qed

lemma rhr_aggregate_dates:
  "hd_date ` set (rhr_aggregate_by_day recs) = hr_date ` set recs"
proof -
  have "filter (\<lambda>item. h_values (snd item) \<noteq> []) (rhr_days_loop recs []) = rhr_days_loop recs []"
  proof (rule filter_True, clarify)
    fix k data
    assume m: "(k, data) \<in> set (rhr_days_loop recs [])" and e: "h_values (snd (k, data)) = []"
    from m have "k \<in> fst ` set (rhr_days_loop recs [])" by force
    then have "k \<in> hr_date ` set recs" by (simp add: rhr_days_loop_keys)
    then have "filter (\<lambda>r. hr_date r = k) recs \<noteq> []"
      by (auto simp: filter_empty_conv)
    with rhr_days_loop_item [OF m] e show False by simp
  qed
  then have "map hd_date (rhr_rows (rhr_days_loop recs [])) = map fst (rhr_days_loop recs [])"
    by (simp add: rhr_rows_dates)
  then have "hd_date ` set (rhr_rows (rhr_days_loop recs [])) = fst ` set (rhr_days_loop recs [])"
    by (metis set_map)
  then show ?thesis
    by (simp add: rhr_aggregate_by_day_def rhr_days_loop_keys)
qed

lemma rhr_row_finite:
  assumes "row \<in> set (rhr_aggregate_by_day recs)"
    and "bucket_values recs (hd_date row) = map Finite vs"
  shows "vs \<noteq> [] \<and> resting_hr row = Finite (round1 (fl64 (mean vs))) \<and>
     min_hr row = Finite (Min (set vs)) \<and> max_hr row = Finite (Max (set vs)) \<and>
     readings row = length vs"
proof -
  note m = rhr_aggregate_member [OF assms(1), unfolded assms(2)]
  from m have ne: "vs \<noteq> []" by simp
  then obtain v ws where vs: "vs = v # ws" by (cases vs) auto
  from m have r: "row = \<lparr>hd_date = hd_date row,
            resting_hr = py_round1 (statistics_mean (map Finite vs)),
            min_hr = py_min (hd (map Finite vs)) (tl (map Finite vs)),
            max_hr = py_max (hd (map Finite vs)) (tl (map Finite vs)),
            readings = length (map Finite vs),
            hd_sources = hr_source ` {r \<in> set recs. hr_date r = hd_date row}\<rparr>"
    by (rule conjunct2)
  have "resting_hr row = py_round1 (statistics_mean (map Finite vs))"
    "min_hr row = py_min (hd (map Finite vs)) (tl (map Finite vs))"
    "max_hr row = py_max (hd (map Finite vs)) (tl (map Finite vs))"
    "readings row = length (map Finite vs)"
    using arg_cong [OF r, of resting_hr] arg_cong [OF r, of min_hr] arg_cong [OF r, of max_hr]
      arg_cong [OF r, of readings]
    by simp_all
  then show ?thesis
    using ne
    by (simp add: statistics_mean_finite py_round1_def)
      (simp add: vs py_min_finite py_max_finite)
qed


lemma round_magnitude_error:
  "\<bar>round_magnitude x - x\<bar> \<le> 2 powi float_exponent x / 2"
proof -
  let ?p = "(2::rat) powi float_exponent x"
  have p: "0 < ?p" by simp
  have "\<bar>of_int (round_half_even (x / ?p)) - x / ?p\<bar> \<le> 1 / 2"
    by (rule round_half_even_near)
  then have "\<bar>of_int (round_half_even (x / ?p)) - x / ?p\<bar> * ?p \<le> 1 / 2 * ?p"
    using p by (simp add: mult_right_mono)
  moreover have "\<bar>of_int (round_half_even (x / ?p)) - x / ?p\<bar> * ?p =
      \<bar>of_int (round_half_even (x / ?p)) * ?p - x\<bar>"
  proof -
    have "\<bar>of_int (round_half_even (x / ?p)) - x / ?p\<bar> * ?p =
        \<bar>(of_int (round_half_even (x / ?p)) - x / ?p) * ?p\<bar>"
      using p by (simp add: abs_mult)
    also have "(of_int (round_half_even (x / ?p)) - x / ?p) * ?p =
        of_int (round_half_even (x / ?p)) * ?p - x"
      using p by (simp add: left_diff_distrib)
    finally show ?thesis .
  qed
  ultimately show ?thesis
    by (simp add: round_magnitude_def Let_def)
qed

lemma float_exponent_small:
  assumes "x < 256"
  shows "float_exponent x \<le> - 45"
proof (rule ccontr)
  assume "\<not> float_exponent x \<le> - 45"
  then have l: "- 44 \<le> float_exponent x" by simp
  then have "float_exponent_below 2045 x \<noteq> - 1074"
    by (simp add: float_exponent_def)
  then have "2 powi (52 + float_exponent x) \<le> x"
    unfolding float_exponent_def by (rule float_exponent_below_lower)
  moreover have "(2::rat) powi 8 \<le> 2 powi (52 + float_exponent x)"
    using l by (intro pow2_mono) simp
  ultimately show False
    using assms by simp
qed

lemma fl64_error:
  assumes "\<bar>x\<bar> < 256"
  shows "\<bar>fl64 x - x\<bar> \<le> 1 / 2 ^ 46"
proof -
  have b: "\<bar>round_magnitude y - y\<bar> \<le> 1 / 2 ^ 46" if "y < 256" for y
  proof -
    have "(2::rat) powi float_exponent y \<le> 2 powi (- 45)"
      using float_exponent_small [OF that] by (rule pow2_mono)
    then have "(2::rat) powi float_exponent y / 2 \<le> 1 / 2 ^ 46"
      by simp
    with round_magnitude_error [of y] show ?thesis
      by linarith
  qed
  show ?thesis
  proof (cases "x < 0")
    case True
    with assms have "- x < 256" by simp
    from True have "fl64 x = - round_magnitude (- x)"
      by (simp add: fl64_def)
    with b [OF \<open>- x < 256\<close>] show ?thesis
      by linarith
  next
    case False
    with assms have "x < 256" by simp
    from False have "fl64 x = round_magnitude x"
      by (simp add: fl64_def)
    with b [OF \<open>x < 256\<close>] show ?thesis
      by linarith
  qed
qed

lemma round1_tolerance:
  assumes "0 \<le> m" "m \<le> 200" "\<bar>m - x\<bar> \<le> 1 / 2 ^ 46"
  shows "\<bar>round1 m - x\<bar> \<le> 1 / 20 + 1 / 2 ^ 45"
proof -
  let ?t = "of_int (round_half_even (m * 10)) / 10 :: rat"
  have "\<bar>of_int (round_half_even (m * 10)) - m * 10\<bar> \<le> 1 / 2"
    by (rule round_half_even_near)
  then have n: "\<bar>?t - m\<bar> \<le> 1 / 20"
    by linarith
  with assms(1,2) have "\<bar>?t\<bar> < 256"
    by linarith
  then have "\<bar>fl64 ?t - ?t\<bar> \<le> 1 / 2 ^ 46"
    by (rule fl64_error)
  with n assms(3) have "\<bar>fl64 ?t - x\<bar> \<le> 1 / 20 + 1 / 2 ^ 46 + 1 / 2 ^ 46"
    by linarith
  then show ?thesis
    by (simp add: round1_def)
qed

lemma rhr_loop_members:
  "rhr_loop xs acc out = (Inr rs, out') \<Longrightarrow> r \<in> set rs \<Longrightarrow>
     r \<in> set acc \<or> (\<exists>x \<in> set xs. rhr_try x = Inr (Some r))"
proof (induction xs arbitrary: acc out)
  case Nil
  then show ?case by simp
next
  case (Cons x xs)
  show ?case
  proof (cases "rhr_try x")
    case (Inl e)
    with Cons.prems have "rhr_loop xs acc (out @ [ErrorProcessing e]) = (Inr rs, out')"
      by (simp split: if_splits)
    from Cons.IH [OF this Cons.prems(2)] show ?thesis by auto
  next
    case (Inr opt)
    show ?thesis
    proof (cases opt)
      case None
      with Inr Cons.prems have "rhr_loop xs acc out = (Inr rs, out')" by simp
      from Cons.IH [OF this Cons.prems(2)] show ?thesis by auto
    next
      case (Some r')
      with Inr Cons.prems have "rhr_loop xs (acc @ [r']) out = (Inr rs, out')" by simp
      from Cons.IH [OF this Cons.prems(2)] Inr Some show ?thesis by auto
    qed
  qed
qed

lemma rhr_try_value:
  assumes "rhr_try x = Inr (Some r)"
  shows "hr_value r = NaN \<or> (\<exists>v. hr_value r = Finite v \<and> 0 < v \<and> v \<le> 200)"
proof -
  from assms obtain f where v: "qs_value x = Inr f" "hr_value r = f"
    "\<not> py_le f (Finite 0)" "\<not> py_less (Finite 200) f"
    by (auto simp: rhr_try_def Let_def split: sum.splits if_splits)
  then show ?thesis
    by (cases f) auto
qed


lemma rhr_row_bounds:
  assumes "vs \<noteq> []" "list_all is_double vs"
  shows "Min (set vs) \<le> mean vs \<and> mean vs \<le> Max (set vs) \<and>
     Min (set vs) \<le> fl64 (mean vs) \<and> fl64 (mean vs) \<le> Max (set vs) \<and>
     \<bar>of_int (round_half_even (fl64 (mean vs) * 10)) / 10 - fl64 (mean vs)\<bar> \<le> 1 / 20 \<and>
     fl64 (of_int \<lfloor>Min (set vs) * 10\<rfloor> / 10) \<le> round1 (fl64 (mean vs)) \<and>
     round1 (fl64 (mean vs)) \<le> fl64 (of_int \<lceil>Max (set vs) * 10\<rceil> / 10) \<and>
     (Min (set vs) * 10 \<in> \<int> \<and> Max (set vs) * 10 \<in> \<int> \<longrightarrow>
        Min (set vs) \<le> round1 (fl64 (mean vs)) \<and> round1 (fl64 (mean vs)) \<le> Max (set vs)) \<and>
     (list_all (\<lambda>v. 0 < v \<and> v \<le> 200) vs \<longrightarrow>
        \<bar>round1 (fl64 (mean vs)) - mean vs\<bar> \<le> 1 / 20 + 1 / 2 ^ 45)"
proof -
  let ?lo = "Min (set vs)" and ?hi = "Max (set vs)" and ?m = "fl64 (mean vs)"
  note mb = mean_bounds [OF assms(1)]
  have "?lo \<in> set vs" "?hi \<in> set vs"
    using assms(1) by simp_all
  with assms(2) have d: "is_double ?lo" "is_double ?hi"
    by (simp_all add: list_all_iff)
  have lo: "?lo \<le> ?m" using d(1) mb(1) by (rule fl64_above)
  have hi: "?m \<le> ?hi" using d(2) mb(2) by (rule fl64_below)
  have "\<bar>of_int (round_half_even (?m * 10)) - ?m * 10\<bar> \<le> 1 / 2"
    by (rule round_half_even_near)
  then have near: "\<bar>of_int (round_half_even (?m * 10)) / 10 - ?m\<bar> \<le> 1 / 20"
    by linarith
  note rl = round1_lower [OF lo] and ru = round1_upper [OF hi]
  have tenths: "?lo \<le> round1 ?m \<and> round1 ?m \<le> ?hi"
    if "?lo * 10 \<in> \<int> \<and> ?hi * 10 \<in> \<int>"
    using that rl ru d by (simp add: tenth_floor tenth_ceiling is_double_def)
  have tol: "\<bar>round1 ?m - mean vs\<bar> \<le> 1 / 20 + 1 / 2 ^ 45"
    if r: "list_all (\<lambda>v. 0 < v \<and> v \<le> 200) vs"
  proof -
    from r \<open>?lo \<in> set vs\<close> \<open>?hi \<in> set vs\<close> have "0 < ?lo" "?hi \<le> 200"
      by (simp_all add: list_all_iff)
    with mb lo hi have "0 \<le> ?m" "?m \<le> 200" "\<bar>mean vs\<bar> < 256"
      by linarith+
    moreover from \<open>\<bar>mean vs\<bar> < 256\<close> have "\<bar>?m - mean vs\<bar> \<le> 1 / 2 ^ 46"
      by (rule fl64_error)
    ultimately show ?thesis
      by (intro round1_tolerance)
  qed
  from mb lo hi near rl ru tenths tol show ?thesis
    by blast
qed

text \<open>
  C5 (as amended). Every date with a record has a row, and every row belongs to a
  non-empty bucket. In a row, \<open>readings\<close> is the number of values of the date,
  \<open>resting_hr\<close> is \<open>round(statistics.mean(values), 1)\<close>, and \<open>min_hr\<close> and
  \<open>max_hr\<close> are \<open>min(values)\<close> and \<open>max(values)\<close>, all computed on doubles.
  When the values of the date are finite doubles: the mean is the double nearest to
  the exact mean; \<open>min_hr\<close> and \<open>max_hr\<close> are the least and the greatest value;
  the exact mean and its double lie between \<open>min_hr\<close> and \<open>max_hr\<close>; the
  decimal that \<open>round\<close> chooses is within 0.05 of the double mean; \<open>resting_hr\<close>
  lies between the double of \<open>min_hr\<close> rounded down to a tenth and the double of
  \<open>max_hr\<close> rounded up to a tenth, and between \<open>min_hr\<close> and \<open>max_hr\<close>
  themselves when these two are exactly multiples of one tenth; and when the values lie in the
  range the extractor accepts, above 0 and at most 200, \<open>resting_hr\<close> is within
  \<open>0.05 + 2^-45\<close> of the exact mean. The extractor keeps a value only if it is
  in that range or not a number.
\<close>

theorem rhr_aggregate_by_day_rows:
  "hd_date ` set (rhr_aggregate_by_day recs) = hr_date ` set recs \<and>
   (\<forall>row \<in> set (rhr_aggregate_by_day recs).
      bucket_values recs (hd_date row) \<noteq> [] \<and>
      readings row = length (bucket_values recs (hd_date row)) \<and>
      resting_hr row = py_round1 (statistics_mean (bucket_values recs (hd_date row))) \<and>
      min_hr row = py_min (hd (bucket_values recs (hd_date row)))
                     (tl (bucket_values recs (hd_date row))) \<and>
      max_hr row = py_max (hd (bucket_values recs (hd_date row)))
                     (tl (bucket_values recs (hd_date row))) \<and>
      (\<forall>vs. bucket_values recs (hd_date row) = map Finite vs \<and> list_all is_double vs \<longrightarrow>
         statistics_mean (map Finite vs) = Finite (fl64 (mean vs)) \<and>
         resting_hr row = Finite (round1 (fl64 (mean vs))) \<and>
         min_hr row = Finite (Min (set vs)) \<and> max_hr row = Finite (Max (set vs)) \<and>
         readings row = length vs \<and>
         Min (set vs) \<le> mean vs \<and> mean vs \<le> Max (set vs) \<and>
         Min (set vs) \<le> fl64 (mean vs) \<and> fl64 (mean vs) \<le> Max (set vs) \<and>
         \<bar>of_int (round_half_even (fl64 (mean vs) * 10)) / 10 - fl64 (mean vs)\<bar> \<le> 1 / 20 \<and>
         fl64 (of_int \<lfloor>Min (set vs) * 10\<rfloor> / 10) \<le> round1 (fl64 (mean vs)) \<and>
         round1 (fl64 (mean vs)) \<le> fl64 (of_int \<lceil>Max (set vs) * 10\<rceil> / 10) \<and>
         (Min (set vs) * 10 \<in> \<int> \<and> Max (set vs) * 10 \<in> \<int> \<longrightarrow>
            Min (set vs) \<le> round1 (fl64 (mean vs)) \<and> round1 (fl64 (mean vs)) \<le> Max (set vs)) \<and>
         (list_all (\<lambda>v. 0 < v \<and> v \<le> 200) vs \<longrightarrow>
            \<bar>round1 (fl64 (mean vs)) - mean vs\<bar> \<le> 1 / 20 + 1 / 2 ^ 45))) \<and>
   (get_resting_hr_records elements = (Inr recs, out) \<longrightarrow>
      (\<forall>r \<in> set recs. hr_value r = NaN \<or> (\<exists>v. hr_value r = Finite v \<and> 0 < v \<and> v \<le> 200)))"
proof (intro conjI ballI allI impI)
  show "hd_date ` set (rhr_aggregate_by_day recs) = hr_date ` set recs"
    by (rule rhr_aggregate_dates)
next
  fix row
  assume row: "row \<in> set (rhr_aggregate_by_day recs)"
  note m = rhr_aggregate_member [OF row]
  from m show "bucket_values recs (hd_date row) \<noteq> []" by (rule conjunct1)
  from m have r: "row = \<lparr>hd_date = hd_date row,
            resting_hr = py_round1 (statistics_mean (bucket_values recs (hd_date row))),
            min_hr = py_min (hd (bucket_values recs (hd_date row)))
                       (tl (bucket_values recs (hd_date row))),
            max_hr = py_max (hd (bucket_values recs (hd_date row)))
                       (tl (bucket_values recs (hd_date row))),
            readings = length (bucket_values recs (hd_date row)),
            hd_sources = hr_source ` {r \<in> set recs. hr_date r = hd_date row}\<rparr>"
    by (rule conjunct2)
  show "readings row = length (bucket_values recs (hd_date row))"
    using arg_cong [OF r, of readings] by simp
  show "resting_hr row = py_round1 (statistics_mean (bucket_values recs (hd_date row)))"
    using arg_cong [OF r, of resting_hr] by simp
  show "min_hr row = py_min (hd (bucket_values recs (hd_date row)))
                     (tl (bucket_values recs (hd_date row)))"
    using arg_cong [OF r, of min_hr] by simp
  show "max_hr row = py_max (hd (bucket_values recs (hd_date row)))
                     (tl (bucket_values recs (hd_date row)))"
    using arg_cong [OF r, of max_hr] by simp
  fix vs
  assume a: "bucket_values recs (hd_date row) = map Finite vs \<and> list_all is_double vs"
  then have b: "bucket_values recs (hd_date row) = map Finite vs" and d: "list_all is_double vs"
    by simp_all
  note f = rhr_row_finite [OF row b]
  from f have ne: "vs \<noteq> []" by simp
  note bounds = rhr_row_bounds [OF ne d]
  show "statistics_mean (map Finite vs) = Finite (fl64 (mean vs))"
    by (rule statistics_mean_finite)
  from f show "resting_hr row = Finite (round1 (fl64 (mean vs)))"
    and "min_hr row = Finite (Min (set vs))" and "max_hr row = Finite (Max (set vs))"
    and "readings row = length vs"
    by simp_all
  from bounds show "Min (set vs) \<le> mean vs" and "mean vs \<le> Max (set vs)"
    and "Min (set vs) \<le> fl64 (mean vs)" and "fl64 (mean vs) \<le> Max (set vs)"
    and "\<bar>of_int (round_half_even (fl64 (mean vs) * 10)) / 10 - fl64 (mean vs)\<bar> \<le> 1 / 20"
    and "fl64 (of_int \<lfloor>Min (set vs) * 10\<rfloor> / 10) \<le> round1 (fl64 (mean vs))"
    and "round1 (fl64 (mean vs)) \<le> fl64 (of_int \<lceil>Max (set vs) * 10\<rceil> / 10)"
    by blast+
  {
    assume "Min (set vs) * 10 \<in> \<int> \<and> Max (set vs) * 10 \<in> \<int>"
    with bounds show "Min (set vs) \<le> round1 (fl64 (mean vs))"
      and "round1 (fl64 (mean vs)) \<le> Max (set vs)"
      by blast+
  }
  {
    assume "list_all (\<lambda>v. 0 < v \<and> v \<le> 200) vs"
    with bounds show "\<bar>round1 (fl64 (mean vs)) - mean vs\<bar> \<le> 1 / 20 + 1 / 2 ^ 45"
      by blast
  }
next
  fix r
  assume "get_resting_hr_records elements = (Inr recs, out)" "r \<in> set recs"
  then obtain x where "rhr_try x = Inr (Some r)"
    using rhr_loop_members [of elements "[]" "[]" recs out r]
    by (auto simp: get_resting_hr_records_def)
  then show "hr_value r = NaN \<or> (\<exists>v. hr_value r = Finite v \<and> 0 < v \<and> v \<le> 200)"
    by (rule rhr_try_value)
qed



lemma is_double_examples:
  "is_double 58" "is_double 60" "is_double 61" "is_double float_60_04"
  by (simp_all add: is_double_def fl64_fixed_examples) (simp add: float_60_04_def)

lemma example_readings_rows:
  "rhr_aggregate_by_day example_readings =
     [\<lparr>hd_date = ymd2ord 2024 1 1, resting_hr = Finite (119 / 2), min_hr = Finite 58,
       max_hr = Finite 61, readings = 2, hd_sources = {''Watch''}\<rparr>]"
  by (simp add: rhr_aggregate_by_day_def example_readings_def reading_def rhr_day_default_def
      Let_def statistics_mean_def map_filter_simps py_round1_def py_min_def py_max_def
      fl64_fixed_examples round1_examples)

lemma twenty_bucket:
  "bucket_values twenty_readings (ymd2ord 2024 1 1) =
     map Finite (replicate 17 60 @ replicate 3 61)"
  "hr_date ` set twenty_readings = {ymd2ord 2024 1 1}"
  "mean (replicate 17 60 @ replicate 3 61) = 1203 / 20"
  "list_all is_double (replicate 17 60 @ replicate 3 61)"
  "Min (set (replicate 17 60 @ replicate 3 61)) = (60::rat)"
  "Max (set (replicate 17 60 @ replicate 3 61)) = (61::rat)"
  by (simp_all add: bucket_values_def twenty_readings_def reading_def mean_def
      is_double_examples list_all_iff sum_list_replicate)

lemma rhr_try_reading:
  "0 < v \<Longrightarrow> v \<le> 200 \<Longrightarrow> rhr_try (raw_reading (Finite v)) = Inr (Some (reading (Finite v)))"
  by (simp add: rhr_try_def raw_reading_def reading_def new_year_at_def)

lemma rhr_loop_replicate:
  "0 < v \<Longrightarrow> v \<le> 200 \<Longrightarrow>
   rhr_loop (replicate n (raw_reading (Finite v)) @ rest) acc out =
     rhr_loop rest (acc @ replicate n (reading (Finite v))) out"
  by (induction n arbitrary: acc)
    (simp_all add: rhr_try_reading replicate_append_same)

lemma twenty_elements_extracted:
  "get_resting_hr_records twenty_elements = (Inr twenty_readings, [Found 20])"
  using rhr_loop_replicate [of 60 17 "replicate 3 (raw_reading (Finite 61))" "[]" "[]"]
    rhr_loop_replicate [of 61 3 "[]" "replicate 17 (reading (Finite 60))" "[]"]
  by (simp add: get_resting_hr_records_def twenty_elements_def twenty_readings_def)

text \<open>Seventeen elements with the value 60 and three with 61 are all extracted. Their
  exact mean is 60.15; its double lies just below, so \<open>round\<close> gives 60.1, which is
  between 60 and 61 and within the tolerance of the mean. Two readings 58 and 61 of one
  day give the row with \<open>resting_hr = 59.5\<close>.\<close>

theorem rhr_aggregate_by_day_rows_witness:
  "get_resting_hr_records twenty_elements = (Inr twenty_readings, [Found 20]) \<and>
   (\<exists>row \<in> set (rhr_aggregate_by_day twenty_readings).
      hd_date row = ymd2ord 2024 1 1 \<and> readings row = 20 \<and>
      min_hr row = Finite 60 \<and> max_hr row = Finite 61 \<and>
      resting_hr row = Finite float_60_1) \<and>
   mean (replicate 17 60 @ replicate 3 61) = 1203 / 20 \<and>
   fl64 (1203 / 20) = float_60_15 \<and> round1 float_60_15 = float_60_1 \<and>
   60 \<le> float_60_1 \<and> float_60_1 \<le> 61 \<and>
   \<bar>float_60_1 - 1203 / 20\<bar> \<le> 1 / 20 + 1 / 2 ^ 45 \<and>
   (\<exists>v. hr_value (reading (Finite 61)) = Finite v \<and> 0 < v \<and> v \<le> 200) \<and>
   rhr_aggregate_by_day example_readings =
     [\<lparr>hd_date = ymd2ord 2024 1 1, resting_hr = Finite (119 / 2), min_hr = Finite 58,
       max_hr = Finite 61, readings = 2, hd_sources = {''Watch''}\<rparr>]"
proof -
  note t = rhr_aggregate_by_day_rows [of twenty_readings twenty_elements "[Found 20]"]
  from t have "hd_date ` set (rhr_aggregate_by_day twenty_readings) = hr_date ` set twenty_readings"
    by (rule conjunct1)
  then obtain row where row: "row \<in> set (rhr_aggregate_by_day twenty_readings)"
    "hd_date row = ymd2ord 2024 1 1"
    unfolding twenty_bucket(2) by (metis imageE insertI1)
  let ?vs = "replicate 17 60 @ replicate 3 61 :: rat list"
  have b: "bucket_values twenty_readings (hd_date row) = map Finite ?vs \<and> list_all is_double ?vs"
    using twenty_bucket(1,4) by (simp only: row(2) simp_thms)
  have r: "list_all (\<lambda>v. 0 < v \<and> v \<le> 200) ?vs"
    by (simp add: list_all_iff)
  from t row(1) b r
  have "resting_hr row = Finite (round1 (fl64 (mean ?vs))) \<and>
      min_hr row = Finite (Min (set ?vs)) \<and> max_hr row = Finite (Max (set ?vs)) \<and>
      readings row = length ?vs \<and>
      (Min (set ?vs) * 10 \<in> \<int> \<and> Max (set ?vs) * 10 \<in> \<int> \<longrightarrow>
         Min (set ?vs) \<le> round1 (fl64 (mean ?vs)) \<and> round1 (fl64 (mean ?vs)) \<le> Max (set ?vs)) \<and>
      \<bar>round1 (fl64 (mean ?vs)) - mean ?vs\<bar> \<le> 1 / 20 + 1 / 2 ^ 45"
    by blast
  then have f: "resting_hr row = Finite float_60_1" "min_hr row = Finite 60"
    "max_hr row = Finite 61" "readings row = 20"
    "60 \<le> float_60_1" "float_60_1 \<le> 61"
    "\<bar>float_60_1 - 1203 / 20\<bar> \<le> 1 / 20 + 1 / 2 ^ 45"
    unfolding twenty_bucket by (simp_all add: fl64_rounded_examples round1_examples)
  with row have e: "\<exists>row \<in> set (rhr_aggregate_by_day twenty_readings).
      hd_date row = ymd2ord 2024 1 1 \<and> readings row = 20 \<and>
      min_hr row = Finite 60 \<and> max_hr row = Finite 61 \<and>
      resting_hr row = Finite float_60_1"
    by blast
  have m: "reading (Finite 61) \<in> set twenty_readings"
    by (simp add: twenty_readings_def)
  have n: "hr_value (reading (Finite 61)) \<noteq> NaN"
    by (simp add: reading_def)
  from t twenty_elements_extracted m
  have "hr_value (reading (Finite 61)) = NaN \<or>
      (\<exists>v. hr_value (reading (Finite 61)) = Finite v \<and> 0 < v \<and> v \<le> 200)"
    by blast
  with n have x: "\<exists>v. hr_value (reading (Finite 61)) = Finite v \<and> 0 < v \<and> v \<le> 200"
    by blast
  from e x f(5,6,7) example_readings_rows twenty_bucket(3) fl64_rounded_examples(1)
    round1_examples(2) twenty_elements_extracted
  show ?thesis
    by (simp only: simp_thms)
qed

text \<open>
  C5 as stated fails because of the rounding: a day with the single reading 60.04,
  which the extractor accepts, has \<open>min_hr = 60.04\<close> and \<open>resting_hr = 60.0\<close>,
  which is below \<open>min_hr\<close>.
\<close>

theorem resting_hr_below_min_hr:
  "get_resting_hr_records [raw_reading (Finite float_60_04)] =
     (Inr [reading (Finite float_60_04)], [Found 1]) \<and>
   rhr_aggregate_by_day [reading (Finite float_60_04)] =
     [\<lparr>hd_date = ymd2ord 2024 1 1, resting_hr = Finite 60, min_hr = Finite float_60_04,
       max_hr = Finite float_60_04, readings = 1, hd_sources = {''Watch''}\<rparr>] \<and>
   is_double float_60_04 \<and> 60 < float_60_04"
proof -
  have g: "get_resting_hr_records [raw_reading (Finite float_60_04)] =
     (Inr [reading (Finite float_60_04)], [Found 1])"
    by (simp add: get_resting_hr_records_def rhr_try_def raw_reading_def reading_def
        new_year_at_def float_60_04_def)
  have a: "rhr_aggregate_by_day [reading (Finite float_60_04)] =
     [\<lparr>hd_date = ymd2ord 2024 1 1, resting_hr = Finite 60, min_hr = Finite float_60_04,
       max_hr = Finite float_60_04, readings = 1, hd_sources = {''Watch''}\<rparr>]"
    by (simp add: rhr_aggregate_by_day_def reading_def rhr_day_default_def
        Let_def statistics_mean_def map_filter_simps py_round1_def py_min_def py_max_def
        fl64_fixed_examples round1_examples)
  have "60 < float_60_04"
    by (simp add: float_60_04_def)
  with g a is_double_examples(4) show ?thesis
    by (simp only: simp_thms)
qed

text \<open>A reading that is not a number passes the range test of the extractor, since
  both comparisons with it are false, and makes every figure of its day not a number
  when it comes first.\<close>

lemma nan_reading_accepted:
  "get_resting_hr_records [raw_reading NaN] = (Inr [reading NaN], [Found 1])"
  "rhr_aggregate_by_day [reading NaN, reading (Finite 60)] =
     [\<lparr>hd_date = ymd2ord 2024 1 1, resting_hr = NaN, min_hr = NaN, max_hr = NaN,
       readings = 2, hd_sources = {''Watch''}\<rparr>]"
  by (simp_all add: get_resting_hr_records_def rhr_try_def raw_reading_def reading_def
      new_year_at_def rhr_aggregate_by_day_def rhr_day_default_def
      Let_def statistics_mean_def py_round1_def py_min_def py_max_def)


section \<open>The extraction loops\<close>

lemma sleep_loop_recovered:
  assumes "list_all (\<lambda>x. recovered (sleep_try x)) xs"
  shows "sleep_loop xs acc out =
     (Inr (acc @ accepted sleep_try xs),
      out @ diagnostics sleep_try xs @ [Found (length (acc @ accepted sleep_try xs))])"
  using assms
proof (induction xs arbitrary: acc out)
  case Nil
  then show ?case by (simp add: accepted_def diagnostics_def)
next
  case (Cons x xs)
  then have ih: "\<And>acc out. sleep_loop xs acc out =
     (Inr (acc @ accepted sleep_try xs),
      out @ diagnostics sleep_try xs @ [Found (length (acc @ accepted sleep_try xs))])"
    by simp
  from Cons.prems have "recovered (sleep_try x)" by simp
  then show ?case
    by (cases "sleep_try x")
      (auto simp: ih recovered_def accepted_def diagnostics_def map_filter_simps split: option.splits)
qed

lemma step_loop_recovered:
  assumes "list_all (\<lambda>x. recovered (step_try x)) xs"
  shows "step_loop xs acc out =
     (Inr (acc @ accepted step_try xs),
      out @ diagnostics step_try xs @ [Found (length (acc @ accepted step_try xs))])"
  using assms
proof (induction xs arbitrary: acc out)
  case Nil
  then show ?case by (simp add: accepted_def diagnostics_def)
next
  case (Cons x xs)
  then have ih: "\<And>acc out. step_loop xs acc out =
     (Inr (acc @ accepted step_try xs),
      out @ diagnostics step_try xs @ [Found (length (acc @ accepted step_try xs))])"
    by simp
  from Cons.prems have "recovered (step_try x)" by simp
  then show ?case
    by (cases "step_try x")
      (auto simp: ih recovered_def accepted_def diagnostics_def map_filter_simps split: option.splits)
qed

lemma sleep_loop_members:
  "sleep_loop xs acc out = (Inr rs, out') \<Longrightarrow> r \<in> set rs \<Longrightarrow>
     r \<in> set acc \<or> (\<exists>x \<in> set xs. sleep_try x = Inr (Some r))"
proof (induction xs arbitrary: acc out)
  case Nil
  then show ?case by simp
next
  case (Cons x xs)
  show ?case
  proof (cases "sleep_try x")
    case (Inl e)
    with Cons.prems have "sleep_loop xs acc (out @ [ErrorProcessing e]) = (Inr rs, out')"
      by (simp split: if_splits)
    from Cons.IH [OF this Cons.prems(2)] show ?thesis by auto
  next
    case (Inr opt)
    show ?thesis
    proof (cases opt)
      case None
      with Inr Cons.prems have "sleep_loop xs acc out = (Inr rs, out')" by simp
      from Cons.IH [OF this Cons.prems(2)] show ?thesis by auto
    next
      case (Some r')
      with Inr Cons.prems have "sleep_loop xs (acc @ [r']) out = (Inr rs, out')" by simp
      from Cons.IH [OF this Cons.prems(2)] Inr Some show ?thesis by auto
    qed
  qed
qed

lemma sleep_try_accept:
  assumes "sleep_try x = Inr (Some r)"
  shows "rs_startDate x = Inr (sl_start_date r) \<and>
     sl_night_date r = (if hour (sl_start_date r) < 6 then ordinal (sl_start_date r) - 1
                        else ordinal (sl_start_date r)) \<and>
     sl_is_nap r = (8 < hour (sl_start_date r) \<and> hour (sl_start_date r) < 18)"
  using assms
  by (auto simp: sleep_try_def Let_def datetime_sub_days_def split: sum.splits if_splits)

text \<open>
  C2. The record made from an accepted sleep element carries the parsed start
  timestamp, and its night date is the day before the start date when the start hour is
  below 6 and the start date itself otherwise. This holds for every record that
  \<open>get_sleep_records\<close> returns.
\<close>

theorem night_date_bucket:
  "(sleep_try x = Inr (Some r) \<longrightarrow>
      rs_startDate x = Inr (sl_start_date r) \<and>
      sl_night_date r = (if hour (sl_start_date r) < 6 then ordinal (sl_start_date r) - 1
                         else ordinal (sl_start_date r))) \<and>
   (get_sleep_records xs = (Inr rs, out) \<longrightarrow>
      (\<forall>r \<in> set rs.
         sl_night_date r = (if hour (sl_start_date r) < 6 then ordinal (sl_start_date r) - 1
                            else ordinal (sl_start_date r))))"
proof (intro conjI impI ballI)
  assume "sleep_try x = Inr (Some r)"
  from sleep_try_accept [OF this]
  show "rs_startDate x = Inr (sl_start_date r)"
    and "sl_night_date r = (if hour (sl_start_date r) < 6 then ordinal (sl_start_date r) - 1
                         else ordinal (sl_start_date r))"
    by simp_all
next
  fix r
  assume "get_sleep_records xs = (Inr rs, out)" "r \<in> set rs"
  then obtain x where "sleep_try x = Inr (Some r)"
    using sleep_loop_members [of xs "[]" "[]" rs out r] by (auto simp: get_sleep_records_def)
  from sleep_try_accept [OF this]
  show "sl_night_date r = (if hour (sl_start_date r) < 6 then ordinal (sl_start_date r) - 1
                         else ordinal (sl_start_date r))"
    by simp
qed

lemma example_sessions:
  "sleep_try night_session =
     Inr (Some night_record)"
  "sleep_try morning_session =
     Inr (Some morning_record)"
  "sleep_try short_session = Inr None"
  "sleep_try undated_session = Inl ValueError"
  by (simp_all add: sleep_try_def night_session_def morning_session_def short_session_def
      undated_session_def night_record_def morning_record_def march_first_at_def march_ordinals
      total_seconds_between_def
      seconds_of_day_def datetime_sub_days_def MINORDINAL_def MAXORDINAL_def Let_def)

text \<open>A session starting at 01:30 on 2024-03-01 belongs to the night of 2024-02-29, a
  session starting at 07:00 to 2024-03-01.\<close>

theorem night_date_bucket_witness:
  "get_sleep_records [night_session, morning_session] =
     (Inr [night_record, morning_record], [Found 2]) \<and>
   hour (sl_start_date night_record) = 1 \<and>
   ordinal (sl_start_date night_record) = ymd2ord 2024 3 1 \<and>
   sl_night_date night_record = ymd2ord 2024 2 29 \<and>
   hour (sl_start_date morning_record) = 7 \<and>
   ordinal (sl_start_date morning_record) = ymd2ord 2024 3 1 \<and>
   sl_night_date morning_record = ymd2ord 2024 3 1"
proof -
  have g: "get_sleep_records [night_session, morning_session] =
     (Inr [night_record, morning_record], [Found 2])"
    by (simp add: get_sleep_records_def example_sessions)
  have h: "hour (sl_start_date night_record) = 1"
    "ordinal (sl_start_date night_record) = ymd2ord 2024 3 1"
    "hour (sl_start_date morning_record) = 7"
    "ordinal (sl_start_date morning_record) = ymd2ord 2024 3 1"
    by (simp_all add: night_record_def morning_record_def march_first_at_def)
  from night_date_bucket [of night_session night_record "[night_session, morning_session]"
      "[night_record, morning_record]" "[Found 2]"] g
  have "sl_night_date night_record =
          (if hour (sl_start_date night_record) < 6 then ordinal (sl_start_date night_record) - 1
           else ordinal (sl_start_date night_record))"
    "sl_night_date morning_record =
          (if hour (sl_start_date morning_record) < 6 then ordinal (sl_start_date morning_record) - 1
           else ordinal (sl_start_date morning_record))"
    by simp_all
  then have "sl_night_date night_record = ymd2ord 2024 2 29"
    "sl_night_date morning_record = ymd2ord 2024 3 1"
    by (simp_all add: h march_ordinals)
  with g h show ?thesis
    by simp
qed

text \<open>
  C9 (as amended). When every element either is accepted, is rejected by the validity
  check, or raises \<open>ValueError\<close> or \<open>TypeError\<close>, the extraction returns normally with
  exactly the accepted records in input order: each rejected or failing element is
  skipped and the loop goes on with the next one. One line is printed for each caught
  exception, a rejected element leaves no trace, and the last line printed is the
  number of accepted records. No count of the skipped records is kept.
\<close>

theorem extraction_recovers:
  "(list_all (\<lambda>x. recovered (step_try x)) xs \<longrightarrow>
      get_step_count_records xs =
        (Inr (accepted step_try xs),
         diagnostics step_try xs @ [Found (length (accepted step_try xs))])) \<and>
   (list_all (\<lambda>x. recovered (sleep_try x)) ys \<longrightarrow>
      get_sleep_records ys =
        (Inr (accepted sleep_try ys),
         diagnostics sleep_try ys @ [Found (length (accepted sleep_try ys))]))"
  by (simp add: get_step_count_records_def get_sleep_records_def step_loop_recovered
      sleep_loop_recovered)

theorem extraction_recovers_witness:
  "get_sleep_records [night_session, undated_session, short_session, morning_session] =
     (Inr [night_record, morning_record], [ErrorProcessing ValueError, Found 2]) \<and>
   get_step_count_records (zero_steps # example_raw_steps) = (Inr example_steps, [Found 2])"
proof -
  let ?xs = "zero_steps # example_raw_steps"
  let ?ys = "[night_session, undated_session, short_session, morning_session]"
  have "list_all (\<lambda>x. recovered (step_try x)) ?xs"
    by (simp add: zero_steps_def example_raw_steps_def step_try_def py_int_def recovered_def)
  moreover have "list_all (\<lambda>x. recovered (sleep_try x)) ?ys"
    by (simp add: example_sessions recovered_def)
  ultimately have "get_step_count_records ?xs =
        (Inr (accepted step_try ?xs),
         diagnostics step_try ?xs @ [Found (length (accepted step_try ?xs))])"
    and "get_sleep_records ?ys =
        (Inr (accepted sleep_try ?ys),
         diagnostics sleep_try ?ys @ [Found (length (accepted sleep_try ?ys))])"
    using extraction_recovers [of ?xs ?ys] by blast+
  moreover have "accepted sleep_try ?ys = [night_record, morning_record]"
    "diagnostics sleep_try ?ys = [ErrorProcessing ValueError]"
    by (simp_all add: accepted_def diagnostics_def map_filter_simps example_sessions)
  moreover have "accepted step_try ?xs = example_steps" "diagnostics step_try ?xs = []"
    by (simp_all add: accepted_def diagnostics_def map_filter_simps zero_steps_def
        example_raw_steps_def example_steps_def step_try_def py_int_def new_year_at_def)
  moreover have "length example_steps = 2"
    by (simp add: example_steps_def)
  ultimately show ?thesis
    by simp
qed

text \<open>
  C9 as stated fails: there is no counter of skipped records. Runs that skip one
  element and runs that skip two return the same records and print the same lines.
\<close>

theorem skipped_records_not_counted:
  "get_step_count_records [zero_steps] = (Inr [], [Found 0]) \<and>
   get_step_count_records [zero_steps, zero_steps] = (Inr [], [Found 0]) \<and>
   get_sleep_records [short_session] = (Inr [], [Found 0]) \<and>
   get_sleep_records [short_session, short_session] = (Inr [], [Found 0])"
  by (simp add: get_step_count_records_def get_sleep_records_def example_sessions
      step_try_def zero_steps_def py_int_def)

text \<open>The exceptions outside the handler are not recovered: \<open>int\<close> of an infinite
  value raises \<open>OverflowError\<close>, which ends the extraction.\<close>

lemma infinite_value_aborts:
  "get_step_count_records [infinite_steps, zero_steps] = (Inl OverflowError, [])"
  by (simp add: get_step_count_records_def step_try_def infinite_steps_def py_int_def)


section \<open>The sleep night aggregator\<close>

lemma night_add_steps:
  assumes "sl_value r = Some v"
  shows "night_add r =
     (\<lambda>n. (if str_contains ''Asleep'' v
            then n\<lparr>n_sources := insert (sl_source r) (n_sources n)\<rparr>
                  \<lparr>n_asleep := n_asleep n + sl_duration r\<rparr>
            else if str_contains ''InBed'' v
            then n\<lparr>n_sources := insert (sl_source r) (n_sources n)\<rparr>
                  \<lparr>n_in_bed := n_in_bed n + sl_duration r\<rparr>
            else n\<lparr>n_sources := insert (sl_source r) (n_sources n)\<rparr>
                  \<lparr>n_unspecified := n_unspecified n + sl_duration r\<rparr>)
           \<lparr>n_total := n_total n + sl_duration r\<rparr>)"
  by (rule ext) (simp add: night_add_def assms category_of_def)

lemma nights_loop_step:
  assumes "\<not> sl_is_nap r" "sl_value r = Some v"
  shows "nights_loop (r # rs) nights =
     nights_loop rs (dict_modify (sl_night_date r) night_default (night_add r) nights)"
proof -
  have "str_contains ''Asleep'' v \<or> (\<not> str_contains ''Asleep'' v \<and> str_contains ''InBed'' v) \<or>
      (\<not> str_contains ''Asleep'' v \<and> \<not> str_contains ''InBed'' v)"
    by blast
  then show ?thesis
    using assms
    by (elim disjE) (simp_all add: Let_def dict_modify_twice night_add_steps [OF assms(2)])
qed

lemma nights_loop_fold:
  "nights_loop recs nights =
     (if list_all labelled (filter (\<lambda>r. \<not> sl_is_nap r) recs)
      then Inr (fold (\<lambda>r. dict_modify (sl_night_date r) night_default (night_add r))
                  (filter (\<lambda>r. \<not> sl_is_nap r) recs) nights)
      else Inl TypeError)"
proof (induction recs arbitrary: nights)
  case Nil
  then show ?case by simp
next
  case (Cons r rs)
  show ?case
  proof (cases "sl_is_nap r")
    case True
    then show ?thesis by (simp add: Cons.IH)
  next
    case False
    show ?thesis
    proof (cases "sl_value r")
      case None
      with False show ?thesis by (simp add: labelled_def)
    next
      case (Some v)
      have "labelled r" using Some by (simp add: labelled_def)
      then show ?thesis
        by (simp only: nights_loop_step [OF False Some] Cons.IH)
          (simp add: False)
    qed
  qed
qed

lemma night_add_fields:
  assumes "sl_value r = Some v"
  shows "n_asleep (night_add r a) = n_asleep a + (if category_of v = Asleep then sl_duration r else 0)"
    "n_in_bed (night_add r a) = n_in_bed a + (if category_of v = InBed then sl_duration r else 0)"
    "n_unspecified (night_add r a) =
       n_unspecified a + (if category_of v = Unspecified then sl_duration r else 0)"
    "n_total (night_add r a) = n_total a + sl_duration r"
    "n_sources (night_add r a) = insert (sl_source r) (n_sources a)"
  by (cases "category_of v"; simp add: night_add_def assms)+

lemma hours_Cons:
  assumes "sl_value r = Some v"
  shows "hours c (r # rs) = (if category_of v = c then sl_duration r else 0) + hours c rs"
  by (simp add: hours_def assms)

lemma hours_Nil: "hours c [] = 0"
  by (simp add: hours_def)

lemma fold_night_add:
  assumes "list_all labelled rs"
  shows "fold night_add rs a =
     \<lparr>n_asleep = n_asleep a + hours Asleep rs,
      n_in_bed = n_in_bed a + hours InBed rs,
      n_unspecified = n_unspecified a + hours Unspecified rs,
      n_total = n_total a + sum_list (map sl_duration rs),
      n_sources = n_sources a \<union> sl_source ` set rs\<rparr>"
  using assms
proof (induction rs arbitrary: a)
  case Nil
  then show ?case by (simp add: hours_Nil)
next
  case (Cons r rs)
  from Cons.prems obtain v where v: "sl_value r = Some v"
    by (auto simp: labelled_def)
  from Cons.prems have "list_all labelled rs" by simp
  note ih = Cons.IH [OF this, of "night_add r a"]
  have "fold night_add (r # rs) a = fold night_add rs (night_add r a)"
    by simp
  also note ih
  finally show ?case
    by (simp add: night_add_fields [OF v] hours_Cons [OF v] algebra_simps)
qed

lemma hours_total:
  assumes "list_all labelled rs"
  shows "sum_list (map sl_duration rs) = hours Asleep rs + hours InBed rs + hours Unspecified rs"
  using assms
proof (induction rs)
  case Nil
  then show ?case by (simp add: hours_Nil)
next
  case (Cons r rs)
  from Cons.prems obtain v where v: "sl_value r = Some v"
    by (auto simp: labelled_def)
  from Cons show ?case
    by (cases "category_of v") (simp_all add: hours_Cons [OF v])
qed


lemma nights_loop_keys:
  assumes "nights_loop recs [] = Inr items"
  shows "distinct (map fst items)"
    and "fst ` set items = sl_night_date ` {r \<in> set recs. \<not> sl_is_nap r}"
proof -
  from assms have i: "items = fold (\<lambda>r. dict_modify (sl_night_date r) night_default (night_add r))
                  (filter (\<lambda>r. \<not> sl_is_nap r) recs) []"
    by (simp add: nights_loop_fold split: if_splits)
  show "distinct (map fst items)"
    unfolding i by (rule fold_dict_modify_distinct) simp
  have "set (filter (\<lambda>r. \<not> sl_is_nap r) recs) = {r \<in> set recs. \<not> sl_is_nap r}"
    by simp
  then show "fst ` set items = sl_night_date ` {r \<in> set recs. \<not> sl_is_nap r}"
    unfolding i fold_dict_modify_keys by simp
qed

lemma nights_loop_item:
  assumes "nights_loop recs [] = Inr items" "(k, n) \<in> set items"
  shows "included recs k \<noteq> [] \<and> list_all labelled (included recs k) \<and>
     n = fold night_add (included recs k) night_default"
proof -
  from assms(1) have l: "list_all labelled (filter (\<lambda>r. \<not> sl_is_nap r) recs)"
    and i: "items = fold (\<lambda>r. dict_modify (sl_night_date r) night_default (night_add r))
                  (filter (\<lambda>r. \<not> sl_is_nap r) recs) []"
    by (simp_all add: nights_loop_fold split: if_splits)
  have "map_of items k = Some n"
    using assms(2) nights_loop_keys(1) [OF assms(1)] by simp
  then have "included recs k \<noteq> [] \<and> n = fold night_add (included recs k) night_default"
    unfolding i fold_dict_modify_lookup included_def by (simp split: if_splits)
  moreover have "list_all labelled (included recs k)"
    using l by (simp add: included_def list_all_iff)
  ultimately show ?thesis by simp
qed

lemma aggregate_sleep_row:
  assumes "aggregate_sleep_by_night recs = Inr rows" "row \<in> set rows"
  shows "included recs (sr_date row) \<noteq> [] \<and> list_all labelled (included recs (sr_date row)) \<and>
     row = \<lparr>sr_date = sr_date row,
            sr_asleep = hours Asleep (included recs (sr_date row)),
            sr_in_bed = hours InBed (included recs (sr_date row)),
            sr_unspecified = hours Unspecified (included recs (sr_date row)),
            sr_total = sum_list (map sl_duration (included recs (sr_date row))),
            sr_sources = sl_source ` set (included recs (sr_date row))\<rparr>"
proof -
  from assms(1) obtain items where items: "nights_loop recs [] = Inr items"
    and rows: "rows = sort_key sr_date (map sleep_row_of items)"
    by (auto simp: aggregate_sleep_by_night_def split: sum.splits)
  from assms(2) rows obtain k n where kn: "(k, n) \<in> set items" "row = sleep_row_of (k, n)"
    by auto
  from nights_loop_item [OF items kn(1)]
  have ne: "included recs k \<noteq> []" and l: "list_all labelled (included recs k)"
    and n: "n = fold night_add (included recs k) night_default"
    by simp_all
  have k: "sr_date row = k"
    using kn(2) by (simp add: sleep_row_of_def)
  show ?thesis
    unfolding k using ne l kn(2)
    by (simp add: sleep_row_of_def n fold_night_add [OF l] night_default_def)
qed

text \<open>
  C10. In every row that the night aggregator returns, \<open>total\<close> is the sum of
  \<open>asleep\<close>, \<open>in_bed\<close> and \<open>unspecified\<close>, and the set of sources is not empty.
  Each of the three fields is the sum of the durations of the records of that night
  that are not naps and whose label falls in the category (\<open>Asleep\<close> first, then
  \<open>InBed\<close>, otherwise unspecified); \<open>total\<close> is the sum over all of them.
\<close>

theorem night_totals:
  assumes "aggregate_sleep_by_night recs = Inr rows"
  shows "\<forall>row \<in> set rows.
     sr_total row = sr_asleep row + sr_in_bed row + sr_unspecified row \<and>
     sr_sources row \<noteq> {} \<and>
     sr_asleep row = hours Asleep (included recs (sr_date row)) \<and>
     sr_in_bed row = hours InBed (included recs (sr_date row)) \<and>
     sr_unspecified row = hours Unspecified (included recs (sr_date row)) \<and>
     sr_total row = sum_list (map sl_duration (included recs (sr_date row))) \<and>
     sr_sources row = sl_source ` set (included recs (sr_date row))"
proof
  fix row
  assume "row \<in> set rows"
  from aggregate_sleep_row [OF assms this]
  have ne: "included recs (sr_date row) \<noteq> []"
    and l: "list_all labelled (included recs (sr_date row))"
    and f: "sr_asleep row = hours Asleep (included recs (sr_date row))"
      "sr_in_bed row = hours InBed (included recs (sr_date row))"
      "sr_unspecified row = hours Unspecified (included recs (sr_date row))"
      "sr_total row = sum_list (map sl_duration (included recs (sr_date row)))"
      "sr_sources row = sl_source ` set (included recs (sr_date row))"
    by (metis sleep_row.select_convs)+
  have "sr_total row = sr_asleep row + sr_in_bed row + sr_unspecified row"
    unfolding f by (rule hours_total [OF l])
  moreover have "sr_sources row \<noteq> {}"
    unfolding f using ne by simp
  ultimately show "sr_total row = sr_asleep row + sr_in_bed row + sr_unspecified row \<and>
     sr_sources row \<noteq> {} \<and>
     sr_asleep row = hours Asleep (included recs (sr_date row)) \<and>
     sr_in_bed row = hours InBed (included recs (sr_date row)) \<and>
     sr_unspecified row = hours Unspecified (included recs (sr_date row)) \<and>
     sr_total row = sum_list (map sl_duration (included recs (sr_date row))) \<and>
     sr_sources row = sl_source ` set (included recs (sr_date row))"
    using f by simp
qed

lemma label_examples:
  "str_contains ''Asleep'' ''HKCategoryValueSleepAnalysisAsleepCore''"
  "\<not> str_contains ''Asleep'' ''HKCategoryValueSleepAnalysisInBed''"
  "str_contains ''InBed'' ''HKCategoryValueSleepAnalysisInBed''"
  "\<not> str_contains ''Asleep'' ''HKCategoryValueSleepAnalysisAwake''"
  "\<not> str_contains ''InBed'' ''HKCategoryValueSleepAnalysisAwake''"
  by simp_all

lemma leap_night_aggregated:
  "aggregate_sleep_by_night [evening_record, nap_record, night_record, awake_record] =
     Inr [leap_night_row]"
  "aggregate_sleep_by_night [nap_record] = Inr []"
  by (simp_all add: aggregate_sleep_by_night_def evening_record_def nap_record_def night_record_def
      awake_record_def leap_night_row_def label_examples night_default_def sleep_row_of_def
      march_ordinals insert_commute)

theorem night_totals_witness:
  "aggregate_sleep_by_night [evening_record, nap_record, night_record, awake_record] =
     Inr [leap_night_row] \<and>
   sr_total leap_night_row = 19 / 4 \<and>
   sr_asleep leap_night_row + sr_in_bed leap_night_row + sr_unspecified leap_night_row = 19 / 4 \<and>
   sr_sources leap_night_row = {''Watch'', ''Phone''}"
proof -
  note a = leap_night_aggregated(1)
  from night_totals [OF a]
  have "sr_total leap_night_row =
      sr_asleep leap_night_row + sr_in_bed leap_night_row + sr_unspecified leap_night_row"
    by simp
  moreover have "sr_total leap_night_row = 19 / 4" "sr_sources leap_night_row = {''Watch'', ''Phone''}"
    by (simp_all add: leap_night_row_def)
  ultimately show ?thesis
    using a by simp
qed

lemma aggregate_without_naps:
  "aggregate_sleep_by_night recs = aggregate_sleep_by_night (filter (\<lambda>r. \<not> sl_is_nap r) recs)"
  by (simp add: aggregate_sleep_by_night_def nights_loop_fold)

lemma aggregate_dates:
  assumes "aggregate_sleep_by_night recs = Inr rows"
  shows "sr_date ` set rows = sl_night_date ` {r \<in> set recs. \<not> sl_is_nap r}"
proof -
  from assms obtain items where items: "nights_loop recs [] = Inr items"
    and rows: "rows = sort_key sr_date (map sleep_row_of items)"
    by (auto simp: aggregate_sleep_by_night_def split: sum.splits)
  have "sr_date ` set rows = fst ` set items"
    unfolding rows by (force simp: sleep_row_of_def)
  with nights_loop_keys(2) [OF items] show ?thesis by simp
qed

text \<open>
  C3. An accepted sleep record is flagged as nap exactly when its start hour is above
  8 and below 18. The night aggregator gives the same result as on the input without
  the naps, so adding or removing a nap anywhere changes no row; the dates of the rows
  are the night dates of the records that are not naps, so a night whose records are
  all naps has no row.
\<close>

theorem naps_excluded:
  "(sleep_try x = Inr (Some r) \<longrightarrow>
      sl_is_nap r = (8 < hour (sl_start_date r) \<and> hour (sl_start_date r) < 18)) \<and>
   (get_sleep_records xs = (Inr rs, out) \<longrightarrow>
      (\<forall>r \<in> set rs. sl_is_nap r = (8 < hour (sl_start_date r) \<and> hour (sl_start_date r) < 18))) \<and>
   aggregate_sleep_by_night recs = aggregate_sleep_by_night (filter (\<lambda>r. \<not> sl_is_nap r) recs) \<and>
   (sl_is_nap p \<longrightarrow>
      aggregate_sleep_by_night (before @ p # after) = aggregate_sleep_by_night (before @ after)) \<and>
   (aggregate_sleep_by_night recs = Inr rows \<longrightarrow>
      sr_date ` set rows = sl_night_date ` {r \<in> set recs. \<not> sl_is_nap r}) \<and>
   (aggregate_sleep_by_night recs = Inr rows \<and>
    list_all sl_is_nap (filter (\<lambda>r. sl_night_date r = d) recs) \<longrightarrow>
      d \<notin> sr_date ` set rows)"
proof (intro conjI impI ballI)
  assume "sleep_try x = Inr (Some r)"
  from sleep_try_accept [OF this]
  show "sl_is_nap r = (8 < hour (sl_start_date r) \<and> hour (sl_start_date r) < 18)"
    by simp
next
  fix r
  assume "get_sleep_records xs = (Inr rs, out)" "r \<in> set rs"
  then obtain x where "sleep_try x = Inr (Some r)"
    using sleep_loop_members [of xs "[]" "[]" rs out r] by (auto simp: get_sleep_records_def)
  from sleep_try_accept [OF this]
  show "sl_is_nap r = (8 < hour (sl_start_date r) \<and> hour (sl_start_date r) < 18)"
    by simp
next
  show "aggregate_sleep_by_night recs =
      aggregate_sleep_by_night (filter (\<lambda>r. \<not> sl_is_nap r) recs)"
    by (rule aggregate_without_naps)
next
  assume "sl_is_nap p"
  then have "filter (\<lambda>r. \<not> sl_is_nap r) (before @ p # after) =
      filter (\<lambda>r. \<not> sl_is_nap r) (before @ after)"
    by simp
  then show "aggregate_sleep_by_night (before @ p # after) =
      aggregate_sleep_by_night (before @ after)"
    by (metis aggregate_without_naps)
next
  assume "aggregate_sleep_by_night recs = Inr rows"
  then show "sr_date ` set rows = sl_night_date ` {r \<in> set recs. \<not> sl_is_nap r}"
    by (rule aggregate_dates)
next
  assume a: "aggregate_sleep_by_night recs = Inr rows \<and>
    list_all sl_is_nap (filter (\<lambda>r. sl_night_date r = d) recs)"
  then have "sr_date ` set rows = sl_night_date ` {r \<in> set recs. \<not> sl_is_nap r}"
    by (simp add: aggregate_dates)
  moreover have "d \<notin> sl_night_date ` {r \<in> set recs. \<not> sl_is_nap r}"
    using a by (auto simp: list_all_iff)
  ultimately show "d \<notin> sr_date ` set rows"
    by simp
qed

lemma nap_session_record: "sleep_try nap_session = Inr (Some nap_record)"
  by (simp add: sleep_try_def nap_session_def nap_record_def march_first_at_def
      total_seconds_between_def seconds_of_day_def Let_def)

text \<open>A nap at 14:00 between the records of the night of 2024-02-29 changes nothing,
  and a nap alone gives no row.\<close>

theorem naps_excluded_witness:
  "sleep_try nap_session = Inr (Some nap_record) \<and>
   hour (sl_start_date nap_record) = 14 \<and> sl_is_nap nap_record \<and>
   aggregate_sleep_by_night [evening_record, nap_record, night_record, awake_record] =
     aggregate_sleep_by_night [evening_record, night_record, awake_record] \<and>
   aggregate_sleep_by_night [evening_record, night_record, awake_record] = Inr [leap_night_row] \<and>
   aggregate_sleep_by_night [nap_record] = Inr [] \<and>
   sl_night_date nap_record \<notin> sr_date ` set [leap_night_row]"
proof -
  note t = naps_excluded [of nap_session nap_record "[]" "[]" "[]"
      "[evening_record, nap_record, night_record, awake_record]"
      nap_record "[evening_record]" "[night_record, awake_record]" "[leap_night_row]"
      "sl_night_date nap_record"]
  have h: "hour (sl_start_date nap_record) = 14"
    by (simp add: nap_record_def march_first_at_def)
  from t have "sleep_try nap_session = Inr (Some nap_record) \<longrightarrow>
      sl_is_nap nap_record =
        (8 < hour (sl_start_date nap_record) \<and> hour (sl_start_date nap_record) < 18)"
    by blast
  then have n: "sl_is_nap nap_record"
    by (simp add: nap_session_record h)
  from t have "sl_is_nap nap_record \<longrightarrow>
      aggregate_sleep_by_night ([evening_record] @ nap_record # [night_record, awake_record]) =
      aggregate_sleep_by_night ([evening_record] @ [night_record, awake_record])"
    by blast
  with n have e: "aggregate_sleep_by_night [evening_record, nap_record, night_record, awake_record] =
     aggregate_sleep_by_night [evening_record, night_record, awake_record]"
    by simp
  have "list_all sl_is_nap (filter (\<lambda>r. sl_night_date r = sl_night_date nap_record)
      [evening_record, nap_record, night_record, awake_record])"
    by (simp add: evening_record_def nap_record_def night_record_def awake_record_def march_ordinals)
  moreover from t have "aggregate_sleep_by_night [evening_record, nap_record, night_record, awake_record] =
        Inr [leap_night_row] \<and>
      list_all sl_is_nap (filter (\<lambda>r. sl_night_date r = sl_night_date nap_record)
        [evening_record, nap_record, night_record, awake_record]) \<longrightarrow>
      sl_night_date nap_record \<notin> sr_date ` set [leap_night_row]"
    by blast
  ultimately have "sl_night_date nap_record \<notin> sr_date ` set [leap_night_row]"
    using leap_night_aggregated(1) by blast
  with n h e leap_night_aggregated nap_session_record show ?thesis
    by (simp only: simp_thms)
qed

end
